theory Spec2Isabelle
  imports Main "HOL-Library.Word"
begin

unbundle bit_operations_syntax

section \<open>The string interner of unique_strings.c\<close>

text \<open>
  The model follows \<^verbatim>\<open>src/unique_strings.c\<close> function by function, for the x86-64 ABI
  the code is built for: \<^verbatim>\<open>char\<close> is a signed byte, \<^verbatim>\<open>int\<close> and
  \<^verbatim>\<open>uint32_t\<close> have 32 bits, a \<^verbatim>\<open>uint32_t\<close> is read from memory little-endian.

  The model describes the runs on which every \<^verbatim>\<open>calloc\<close>, \<^verbatim>\<open>malloc\<close> and
  \<^verbatim>\<open>realloc\<close> succeeds; the code does not test the result of \<^verbatim>\<open>realloc\<close> or of
  the two \<^verbatim>\<open>calloc\<close> calls. An allocated object has fewer than \<open>2 ^ 63\<close> bytes, so
  on these runs no sum of two sizes leaves the range of \<^verbatim>\<open>size_t\<close>, and sizes and
  offsets are natural numbers. The digest is computed on 32-bit words, and the
  conversion of the length to \<^verbatim>\<open>int\<close> wraps as the compiler has it.

  What C leaves undefined (reading through a null or dangling pointer, reading
  outside a block) is an \<open>error\<close> value. The functions have the names of the
  source, the static ones without their leading underscore.
\<close>

type_synonym byte = "8 word"
type_synonym ptr = nat

definition NULL :: ptr where
  "NULL = 0"

datatype error = NullDeref | BadPointer | OutOfBounds

definition UNIQUE_STRING_BUCKETS :: nat where
  "UNIQUE_STRING_BUCKETS = 32"

definition MURMUR_SEED :: "32 word" where
  "MURMUR_SEED = 0xf9a025a4"

subsection \<open>hash_murmur2\<close>

text \<open>
  Memory is a function from addresses to bytes and \<open>data\<close> is an address, as in the
  source, where \<^verbatim>\<open>data\<close> is a \<^verbatim>\<open>const char *\<close> that the loop advances.
\<close>

type_synonym memory = "ptr \<Rightarrow> byte"

definition murmur_m :: "32 word" where
  "murmur_m = 0x5bd1e995"

definition murmur_r :: nat where
  "murmur_r = 24"

text \<open>\<^verbatim>\<open>*(uint32_t*)data\<close>, little-endian.\<close>

definition read_u32 :: "memory \<Rightarrow> ptr \<Rightarrow> 32 word" where
  "read_u32 mem data =
     ucast (mem data) OR push_bit 8 (ucast (mem (data + 1)))
       OR push_bit 16 (ucast (mem (data + 2))) OR push_bit 24 (ucast (mem (data + 3)))"

text \<open>A \<^verbatim>\<open>char\<close> promoted to \<^verbatim>\<open>int\<close> (sign extension) and then taken as \<^verbatim>\<open>uint32_t\<close>.\<close>

definition char_to_u32 :: "byte \<Rightarrow> 32 word" where
  "char_to_u32 c = scast c"

text \<open>The \<^verbatim>\<open>while (len >= 4)\<close> loop; it returns the advanced pointer, the rest of
  the length and the mixed value.\<close>

function murmur_loop :: "memory \<Rightarrow> ptr \<Rightarrow> int \<Rightarrow> 32 word \<Rightarrow> ptr \<times> int \<times> 32 word" where
  "murmur_loop mem data len h =
     (if len \<ge> 4 then
        (let k0 = read_u32 mem data;
             k1 = k0 * murmur_m;
             k2 = k1 XOR drop_bit murmur_r k1;
             k3 = k2 * murmur_m;
             h1 = h * murmur_m;
             h2 = h1 XOR k3
         in murmur_loop mem (data + 4) (len - 4) h2)
      else (data, len, h))"
  by pat_completeness auto
termination
  by (relation "measure (\<lambda>(mem, data, len, h). nat len)") auto

declare murmur_loop.simps [simp del]

text \<open>The \<^verbatim>\<open>switch (len)\<close> with its fall-through: case 3 runs the statements of
  cases 2, 1 and default too, and every length ends in \<^verbatim>\<open>h *= m\<close>.\<close>

definition murmur_switch :: "memory \<Rightarrow> ptr \<Rightarrow> int \<Rightarrow> 32 word \<Rightarrow> 32 word" where
  "murmur_switch mem data len h =
     (let h3 = (if len = 3 then h XOR push_bit 16 (char_to_u32 (mem (data + 2))) else h);
          h2 = (if len = 3 \<or> len = 2 then h3 XOR push_bit 8 (char_to_u32 (mem (data + 1))) else h3);
          h1 = (if len = 3 \<or> len = 2 \<or> len = 1 then h2 XOR char_to_u32 (mem data) else h2)
      in h1 * murmur_m)"

definition murmur_final :: "32 word \<Rightarrow> 32 word" where
  "murmur_final h =
     (let h1 = h XOR drop_bit 13 h;
          h2 = h1 * murmur_m
      in h2 XOR drop_bit 15 h2)"

definition hash_murmur2 :: "memory \<Rightarrow> ptr \<Rightarrow> int \<Rightarrow> 32 word \<Rightarrow> 32 word" where
  "hash_murmur2 mem data len seed =
     (case murmur_loop mem data len (seed XOR word_of_int len) of
        (data', len', h) \<Rightarrow> murmur_final (murmur_switch mem data' len' h))"

subsection \<open>C strings\<close>

text \<open>
  A string argument \<^verbatim>\<open>const char *str\<close> is passed as the list of the bytes found
  at \<^verbatim>\<open>str\<close>; the terminator follows the list unless a zero byte comes earlier.
  \<open>c_str\<close> is the content of the C string, \<open>str_memory\<close> the memory the hash reads.
  The argument lies outside the interner's block: the bytes are the same before and
  after a reallocation.
\<close>

definition c_str :: "byte list \<Rightarrow> byte list" where
  "c_str s = takeWhile (\<lambda>c. c \<noteq> 0) s"

definition strlen :: "byte list \<Rightarrow> nat" where
  "strlen s = length (c_str s)"

definition str_memory :: "byte list \<Rightarrow> memory" where
  "str_memory s = (\<lambda>a. if a < strlen s then s ! a else 0)"

text \<open>The conversion of \<^verbatim>\<open>size_t\<close> to \<^verbatim>\<open>int\<close> at the call of the hash.\<close>

definition size_to_int :: "nat \<Rightarrow> int" where
  "size_to_int n = sint (word_of_nat n :: 32 word)"

subsection \<open>The structs\<close>

text \<open>
  Modelled from the spec: \<^verbatim>\<open>struct unique_string_handle_t\<close> is declared in the header
  \<^verbatim>\<open>uap/unique_strings.h\<close>, which is not among the sources; the spec gives a handle
  as an offset and a reference to the arena, and the code uses the fields
  \<^verbatim>\<open>addr\<close> and \<^verbatim>\<open>parent\<close>.
\<close>

record unique_string_handle_t =
  addr :: nat
  parent :: ptr

text \<open>
  \<^verbatim>\<open>struct buffer_t\<close>. The field \<open>data\<close> is the address of the backing block (or
  \<open>NULL\<close>) and \<open>block\<close> is what the heap holds there, one byte per element.
\<close>

record buffer_t =
  used :: nat
  capacity :: nat
  data :: ptr
  block :: "byte list"

record string_hash_pair_t =
  hash :: "32 word"
  str :: "byte list"

text \<open>
  \<^verbatim>\<open>struct unique_string_node\<close>. The \<^verbatim>\<open>next\<close> pointers of a chain are the order
  of a list of nodes: the list is the chain from its head, \<open>[]\<close> is a null head, and
  a pointer to a node of the chain is its position in the list.
\<close>

record unique_string_node =
  hash :: "32 word"
  buffer_ptr :: unique_string_handle_t

text \<open>\<^verbatim>\<open>struct unique_strings_t\<close>; \<open>None\<close> is a null \<^verbatim>\<open>buckets\<close> pointer.\<close>

record unique_strings_t =
  buffer :: buffer_t
  buckets :: "unique_string_node list list option"

text \<open>The heap of interners: the structs that \<^verbatim>\<open>unique_strings_create\<close> allocated and
  \<^verbatim>\<open>unique_strings_destroy\<close> has not freed, by address. A \<^verbatim>\<open>struct buffer_t *\<close> is the
  address of the interner the buffer is the first member of.\<close>

type_synonym heap = "ptr \<Rightarrow> unique_strings_t option"

definition deref :: "heap \<Rightarrow> ptr \<Rightarrow> error + unique_strings_t" where
  "deref hp p =
     (if p = NULL then Inl NullDeref
      else case hp p of None \<Rightarrow> Inl BadPointer | Some u \<Rightarrow> Inr u)"

subsection \<open>The allocator\<close>

text \<open>
  What \<^verbatim>\<open>realloc\<close> answers is not decided by the program: the address of the block it
  returns and the content of the bytes it adds are arguments of the model.
\<close>

record allocation =
  base :: ptr
  junk :: "nat \<Rightarrow> byte"

definition realloc :: "allocation \<Rightarrow> byte list \<Rightarrow> nat \<Rightarrow> ptr \<times> byte list" where
  "realloc al old n = (base al, take n old @ map (junk al) [length old..<n])"

subsection \<open>The managed buffer\<close>

text \<open>
  \<open>buffer_alloc_size_t\<close> is \<^verbatim>\<open>buffer_alloc\<close> as the source computes it, on sizes
  below \<open>2 ^ 64\<close>: every sum and product is taken modulo \<open>2 ^ 64\<close>, the range of
  \<^verbatim>\<open>size_t\<close>. \<open>buffer_alloc\<close>
  is the same function with the sums in the natural numbers. The two agree whenever
  \<open>used + size\<close> and the new capacity stay below \<open>2 ^ 64\<close>
  (\<open>buffer_alloc_in_range\<close>). In \<^verbatim>\<open>unique_strings_add\<close> they do, since the size is that
  of a string in memory and the block is in memory too, and the interner is modelled
  with \<open>buffer_alloc\<close>.
\<close>

definition size_t_of :: "nat \<Rightarrow> nat" where
  "size_t_of n = n mod 2 ^ 64"

definition buffer_alloc_size_t ::
  "allocation \<Rightarrow> ptr \<Rightarrow> buffer_t \<Rightarrow> nat \<Rightarrow> unique_string_handle_t \<times> buffer_t" where
  "buffer_alloc_size_t al bp b sz =
     (let b1 = (if size_t_of (used b + sz) \<ge> capacity b then
                  (let cap = size_t_of (capacity b + size_t_of (1024 * size_t_of ((sz div 1024) + 1)));
                       (p, blk) = realloc al (block b) cap
                   in b\<lparr>capacity := cap, data := p, block := blk\<rparr>)
                else b);
          h = \<lparr>addr = used b1, parent = bp\<rparr>
      in (h, b1\<lparr>used := size_t_of (used b1 + sz)\<rparr>))"

definition buffer_alloc ::
  "allocation \<Rightarrow> ptr \<Rightarrow> buffer_t \<Rightarrow> nat \<Rightarrow> unique_string_handle_t \<times> buffer_t" where
  "buffer_alloc al bp b sz =
     (let b1 = (if used b + sz \<ge> capacity b then
                  (let cap = capacity b + 1024 * ((sz div 1024) + 1);
                       (p, blk) = realloc al (block b) cap
                   in b\<lparr>capacity := cap, data := p, block := blk\<rparr>)
                else b);
          h = \<lparr>addr = used b1, parent = bp\<rparr>
      in (h, b1\<lparr>used := used b1 + sz\<rparr>))"

definition buffer_clear :: "buffer_t \<Rightarrow> buffer_t" where
  "buffer_clear b = b\<lparr>capacity := 0, used := 0, data := NULL, block := []\<rparr>"

definition buffer_compact :: "allocation \<Rightarrow> buffer_t \<Rightarrow> buffer_t" where
  "buffer_compact al b =
     (let (p, blk) = realloc al (block b) (used b)
      in b\<lparr>data := p, block := blk, capacity := used b\<rparr>)"

subsection \<open>Reading and writing the block through a handle\<close>

text \<open>
  \<^verbatim>\<open>strcmp(p, str) == 0\<close> for \<open>p\<close> at offset \<open>a\<close> of the block: the bytes are compared
  one by one up to the first difference or the terminator of \<open>str\<close>; a read beyond
  the block is an error.
\<close>

fun strcmp_block :: "byte list \<Rightarrow> nat \<Rightarrow> byte list \<Rightarrow> error + bool" where
  "strcmp_block blk a [] =
     (if a < length blk then Inr (blk ! a = 0) else Inl OutOfBounds)"
| "strcmp_block blk a (c # cs) =
     (if a < length blk then
        (if c = 0 then Inr (blk ! a = 0)
         else if blk ! a = c then strcmp_block blk (a + 1) cs
         else Inr False)
      else Inl OutOfBounds)"

text \<open>\<^verbatim>\<open>memcpy(p, src, n)\<close> for \<open>p\<close> at offset \<open>a\<close> of the block, \<open>n\<close> the length of \<open>src\<close>.\<close>

definition memcpy_block :: "byte list \<Rightarrow> nat \<Rightarrow> byte list \<Rightarrow> error + byte list" where
  "memcpy_block blk a src =
     (if a + length src \<le> length blk
      then Inr (take a blk @ src @ drop (a + length src) blk)
      else Inl OutOfBounds)"

text \<open>The C string that starts at offset \<open>a\<close> of the block: the bytes before the first
  zero byte.\<close>

definition view_block :: "byte list \<Rightarrow> nat \<Rightarrow> error + byte list" where
  "view_block blk a =
     (if 0 \<in> set (drop a blk) then Inr (takeWhile (\<lambda>c. c \<noteq> 0) (drop a blk))
      else Inl OutOfBounds)"

subsection \<open>The interner\<close>

definition string_hash_pair_prepare :: "byte list \<Rightarrow> string_hash_pair_t" where
  "string_hash_pair_prepare s =
     \<lparr>string_hash_pair_t.hash = hash_murmur2 (str_memory s) 0 (size_to_int (strlen s)) MURMUR_SEED,
      str = s\<rparr>"

text \<open>The address \<^verbatim>\<open>calloc\<close> returns for the struct is an argument.\<close>

definition unique_strings_create :: "heap \<Rightarrow> ptr \<Rightarrow> ptr \<times> heap" where
  "unique_strings_create hp us =
     (us, hp(us \<mapsto> \<lparr>buffer = \<lparr>used = 0, capacity = 0, data = NULL, block = []\<rparr>,
                     buckets = Some (replicate UNIQUE_STRING_BUCKETS [])\<rparr>))"

definition get_bucket_index :: "string_hash_pair_t \<Rightarrow> nat" where
  "get_bucket_index pair = unat (string_hash_pair_t.hash pair mod word_of_nat UNIQUE_STRING_BUCKETS)"

text \<open>\<^verbatim>\<open>unique_strings_get\<close> (and the static \<^verbatim>\<open>_unique_strings_get\<close>, the same
  expression): the address \<^verbatim>\<open>handle->parent->data + handle->addr\<close>.\<close>

definition unique_strings_get :: "heap \<Rightarrow> unique_string_handle_t \<Rightarrow> error + ptr" where
  "unique_strings_get hp handle =
     (case deref hp (parent handle) of
        Inl e \<Rightarrow> Inl e
      | Inr u \<Rightarrow> Inr (data (buffer u) + addr handle))"

text \<open>The string a caller reads at the address \<open>unique_strings_get\<close> returns: the
  address is offset \<open>addr handle\<close> of the parent's block.\<close>

definition get_string :: "heap \<Rightarrow> unique_string_handle_t \<Rightarrow> error + byte list" where
  "get_string hp handle =
     (case deref hp (parent handle) of
        Inl e \<Rightarrow> Inl e
      | Inr u \<Rightarrow> view_block (block (buffer u)) (addr handle))"

text \<open>\<^verbatim>\<open>strcmp(unique_strings_get(&iter->buffer_ptr), pair->str) == 0\<close>.\<close>

definition strcmp_handle :: "heap \<Rightarrow> unique_string_handle_t \<Rightarrow> byte list \<Rightarrow> error + bool" where
  "strcmp_handle hp handle s =
     (case deref hp (parent handle) of
        Inl e \<Rightarrow> Inl e
      | Inr u \<Rightarrow> strcmp_block (block (buffer u)) (addr handle) s)"

text \<open>
  The loop of \<^verbatim>\<open>_unique_strings_find_node\<close>: \<open>iter\<close> is the rest of the chain, \<open>i\<close>
  the position of its first node and \<open>node\<close> the value of \<^verbatim>\<open>*node\<close>. The result is
  the returned flag and the final \<^verbatim>\<open>*node\<close>.
\<close>

fun find_node_loop ::
  "heap \<Rightarrow> string_hash_pair_t \<Rightarrow> unique_string_node list \<Rightarrow> nat \<Rightarrow> nat option
     \<Rightarrow> error + (bool \<times> nat option)" where
  "find_node_loop hp pair [] i node = Inr (False, node)"
| "find_node_loop hp pair (iter # rest) i node =
     (if hash iter = string_hash_pair_t.hash pair then
        (case strcmp_handle hp (buffer_ptr iter) (str pair) of
           Inl e \<Rightarrow> Inl e
         | Inr True \<Rightarrow> Inr (True, Some i)
         | Inr False \<Rightarrow>
             if hash iter < string_hash_pair_t.hash pair then Inr (False, Some i)
             else find_node_loop hp pair rest (i + 1) (Some i))
      else if hash iter < string_hash_pair_t.hash pair then Inr (False, Some i)
      else find_node_loop hp pair rest (i + 1) (Some i))"

definition unique_strings_find_node ::
  "heap \<Rightarrow> unique_strings_t \<Rightarrow> string_hash_pair_t \<Rightarrow> error + (bool \<times> nat option)" where
  "unique_strings_find_node hp u pair =
     (case buckets u of
        None \<Rightarrow> Inl NullDeref
      | Some bs \<Rightarrow>
          if get_bucket_index pair < length bs
          then find_node_loop hp pair (bs ! get_bucket_index pair) 0 None
          else Inl OutOfBounds)"

text \<open>\<^verbatim>\<open>malloc\<close> of the node succeeds; the pointer the string is copied to is
  \<^verbatim>\<open>_unique_strings_get\<close> of the new handle, whose parent is the buffer itself.\<close>

definition unique_string_node_create ::
  "allocation \<Rightarrow> ptr \<Rightarrow> buffer_t \<Rightarrow> string_hash_pair_t \<Rightarrow> error + (unique_string_node \<times> buffer_t)" where
  "unique_string_node_create al bp b pair =
     (case buffer_alloc al bp b (strlen (str pair) + 1) of
        (h, b1) \<Rightarrow>
          (case memcpy_block (block b1) (addr h) (c_str (str pair) @ [0]) of
             Inl e \<Rightarrow> Inl e
           | Inr blk \<Rightarrow>
               Inr (\<lparr>hash = string_hash_pair_t.hash pair, buffer_ptr = h\<rparr>, b1\<lparr>block := blk\<rparr>)))"

text \<open>The node a position of the chain points to, and the splice
  \<^verbatim>\<open>new_node->next = found->next; found->next = new_node\<close>.\<close>

definition node_at :: "unique_string_node list \<Rightarrow> nat \<Rightarrow> error + unique_string_node" where
  "node_at chain i = (if i < length chain then Inr (chain ! i) else Inl BadPointer)"

definition insert_after ::
  "unique_string_node list \<Rightarrow> nat \<Rightarrow> unique_string_node \<Rightarrow> unique_string_node list" where
  "insert_after chain i new_node = take (Suc i) chain @ new_node # drop (Suc i) chain"

text \<open>
  \<^verbatim>\<open>unique_strings_add\<close>. Where the source goes through \<^verbatim>\<open>found\<close> or writes the
  bucket, the model looks the position up in the table again.
\<close>

definition unique_strings_add ::
  "allocation \<Rightarrow> heap \<Rightarrow> ptr \<Rightarrow> byte list \<Rightarrow> error + (unique_string_handle_t \<times> heap)" where
  "unique_strings_add al hp us s =
     (let pair = string_hash_pair_prepare s in
      case deref hp us of
        Inl e \<Rightarrow> Inl e
      | Inr u \<Rightarrow>
          (case unique_strings_find_node hp u pair of
             Inl e \<Rightarrow> Inl e
           | Inr (True, found) \<Rightarrow>
               (case (buckets u, found) of
                  (Some bs, Some i) \<Rightarrow>
                    (case node_at (bs ! get_bucket_index pair) i of
                       Inl e \<Rightarrow> Inl e
                     | Inr n \<Rightarrow> Inr (buffer_ptr n, hp))
                | _ \<Rightarrow> Inl NullDeref)
           | Inr (False, found) \<Rightarrow>
               (case unique_string_node_create al us (buffer u) pair of
                  Inl e \<Rightarrow> Inl e
                | Inr (new_node, b') \<Rightarrow>
                    (case buckets u of
                       None \<Rightarrow> Inl NullDeref
                     | Some bs \<Rightarrow>
                         (let k = get_bucket_index pair;
                              chain = (case found of
                                         Some i \<Rightarrow> insert_after (bs ! k) i new_node
                                       | None \<Rightarrow> [new_node])
                          in Inr (buffer_ptr new_node,
                                  hp(us \<mapsto> u\<lparr>buffer := b', buckets := Some (bs[k := chain])\<rparr>)))))))"

text \<open>\<^verbatim>\<open>_unique_string_free_nodes\<close> reads \<^verbatim>\<open>node->next\<close>, so a null \<open>node\<close> is an error;
  the result lists the nodes in the order of their \<^verbatim>\<open>free\<close>.\<close>

fun unique_string_free_nodes :: "unique_string_node list \<Rightarrow> error + unique_string_node list" where
  "unique_string_free_nodes [] = Inl NullDeref"
| "unique_string_free_nodes (node # rest) =
     (if rest \<noteq> [] then
        (case unique_string_free_nodes rest of
           Inl e \<Rightarrow> Inl e
         | Inr freed \<Rightarrow> Inr (freed @ [node]))
      else Inr [node])"

text \<open>The \<^verbatim>\<open>for\<close> loop of \<^verbatim>\<open>_unique_string_free_buckets\<close> over the table.\<close>

fun free_buckets_loop :: "unique_string_node list list \<Rightarrow> error + unique_string_node list" where
  "free_buckets_loop [] = Inr []"
| "free_buckets_loop (chain # bs) =
     (case (if chain \<noteq> [] then unique_string_free_nodes chain else Inr []) of
        Inl e \<Rightarrow> Inl e
      | Inr freed \<Rightarrow>
          (case free_buckets_loop bs of
             Inl e \<Rightarrow> Inl e
           | Inr freed' \<Rightarrow> Inr (freed @ freed')))"

definition unique_string_free_buckets ::
  "unique_strings_t \<Rightarrow> error + (unique_string_node list \<times> unique_strings_t)" where
  "unique_string_free_buckets u =
     (case (case buckets u of
              Some bs \<Rightarrow>
                if length bs < UNIQUE_STRING_BUCKETS then Inl OutOfBounds
                else free_buckets_loop (take UNIQUE_STRING_BUCKETS bs)
            | None \<Rightarrow> Inr []) of
        Inl e \<Rightarrow> Inl e
      | Inr freed \<Rightarrow> Inr (freed, u\<lparr>buckets := None\<rparr>))"

definition unique_strings_destroy :: "heap \<Rightarrow> ptr \<Rightarrow> error + heap" where
  "unique_strings_destroy hp us =
     (if us \<noteq> NULL then
        (case deref hp us of
           Inl e \<Rightarrow> Inl e
         | Inr u \<Rightarrow>
             (case unique_string_free_buckets u of
                Inl e \<Rightarrow> Inl e
              | Inr (freed, u1) \<Rightarrow>
                  (let u2 = u1\<lparr>buffer := buffer_clear (buffer u1)\<rparr>
                   in Inr (hp(us := None)))))
      else Inr hp)"

definition unique_strings_freeze :: "allocation \<Rightarrow> heap \<Rightarrow> ptr \<Rightarrow> error + heap" where
  "unique_strings_freeze al hp us =
     (case deref hp us of
        Inl e \<Rightarrow> Inl e
      | Inr u \<Rightarrow>
          (case unique_string_free_buckets u of
             Inl e \<Rightarrow> Inl e
           | Inr (freed, u1) \<Rightarrow>
               Inr (hp(us \<mapsto> u1\<lparr>buffer := buffer_compact al (buffer u1)\<rparr>))))"

text \<open>\<^verbatim>\<open>unique_strings_owns\<close> compares addresses.\<close>

definition unique_strings_owns :: "heap \<Rightarrow> ptr \<Rightarrow> ptr \<Rightarrow> error + bool" where
  "unique_strings_owns hp us p =
     (case deref hp us of
        Inl e \<Rightarrow> Inl e
      | Inr u \<Rightarrow> Inr (p \<ge> data (buffer u) \<and> p < data (buffer u) + used (buffer u)))"

subsection \<open>Sequences of operations\<close>

datatype operation = Add allocation "byte list" | Freeze allocation

fun apply_operation :: "heap \<Rightarrow> ptr \<Rightarrow> operation \<Rightarrow> error + heap" where
  "apply_operation hp us (Add al s) =
     (case unique_strings_add al hp us s of Inl e \<Rightarrow> Inl e | Inr (h, hp') \<Rightarrow> Inr hp')"
| "apply_operation hp us (Freeze al) = unique_strings_freeze al hp us"

fun run :: "heap \<Rightarrow> ptr \<Rightarrow> operation list \<Rightarrow> error + heap" where
  "run hp us [] = Inr hp"
| "run hp us (x # xs) =
     (case apply_operation hp us x of Inl e \<Rightarrow> Inl e | Inr hp' \<Rightarrow> run hp' us xs)"

text \<open>The sequences in which no addition follows a freeze: additions, then
  freezes.\<close>

fun is_freeze :: "operation \<Rightarrow> bool" where
  "is_freeze (Freeze al) = True"
| "is_freeze (Add al s) = False"

fun no_add_after_freeze :: "operation list \<Rightarrow> bool" where
  "no_add_after_freeze [] = True"
| "no_add_after_freeze (Add al s # xs) = no_add_after_freeze xs"
| "no_add_after_freeze (Freeze al # xs) = list_all is_freeze xs"

subsection \<open>Well-formed interners\<close>

text \<open>
  The buffer has \<open>capacity\<close> bytes, of which \<open>used\<close> are in use. A string is stored
  at offset \<open>a\<close> when a terminator follows \<open>a\<close> inside the used part. An interner
  is well formed when its table, if it has one, has 32 chains whose nodes all hold
  handles of strings stored in the interner's own buffer.
\<close>

definition buffer_ok :: "buffer_t \<Rightarrow> bool" where
  "buffer_ok b = (used b \<le> capacity b \<and> length (block b) = capacity b)"

definition stored :: "buffer_t \<Rightarrow> nat \<Rightarrow> bool" where
  "stored b a = (0 \<in> set (drop a (take (used b) (block b))))"

definition handle_ok :: "heap \<Rightarrow> ptr \<Rightarrow> unique_string_handle_t \<Rightarrow> bool" where
  "handle_ok hp us h =
     (parent h = us \<and> (case hp us of None \<Rightarrow> False | Some u \<Rightarrow> stored (buffer u) (addr h)))"

definition building :: "heap \<Rightarrow> ptr \<Rightarrow> bool" where
  "building hp us = (case hp us of None \<Rightarrow> False | Some u \<Rightarrow> buckets u \<noteq> None)"

definition interner_ok :: "heap \<Rightarrow> ptr \<Rightarrow> bool" where
  "interner_ok hp us =
     (us \<noteq> NULL \<and>
      (case hp us of
         None \<Rightarrow> False
       | Some u \<Rightarrow>
           buffer_ok (buffer u) \<and>
           (case buckets u of
              None \<Rightarrow> True
            | Some bs \<Rightarrow>
                length bs = UNIQUE_STRING_BUCKETS \<and>
                (\<forall>chain \<in> set bs. \<forall>n \<in> set chain. handle_ok hp us (buffer_ptr n)))))"

text \<open>The interners a program can have at address \<open>us\<close>: the one
  \<open>unique_strings_create\<close> returns, and what additions and freezes that return make
  of it.\<close>

inductive reachable :: "heap \<Rightarrow> ptr \<Rightarrow> bool" where
  created: "us \<noteq> NULL \<Longrightarrow> reachable (snd (unique_strings_create hp us)) us"
| operated: "reachable hp us \<Longrightarrow> apply_operation hp us x = Inr hp' \<Longrightarrow> reachable hp' us"

subsection \<open>The lookup as the specification words it\<close>

text \<open>
  An entry matches the query when its digest is the query's and its stored content is
  the query's bytes; the walk stops after an entry whose digest is strictly smaller.
  The visited entries are those before the first entry that matches or stops the
  walk, and that entry. The result is \<open>Found\<close> with the position of the matching
  visited entry, or \<open>NotFound\<close> with the position of the last visited entry, if any.
\<close>

datatype probe_result = Found nat | NotFound "nat option"

definition entry_matches :: "heap \<Rightarrow> string_hash_pair_t \<Rightarrow> unique_string_node \<Rightarrow> bool" where
  "entry_matches hp pair n =
     (hash n = string_hash_pair_t.hash pair \<and>
      get_string hp (buffer_ptr n) = Inr (c_str (str pair)))"

definition entry_stops :: "string_hash_pair_t \<Rightarrow> unique_string_node \<Rightarrow> bool" where
  "entry_stops pair n = (hash n < string_hash_pair_t.hash pair)"

definition visited :: "heap \<Rightarrow> string_hash_pair_t \<Rightarrow> unique_string_node list \<Rightarrow> unique_string_node list" where
  "visited hp pair chain =
     takeWhile (\<lambda>n. \<not> entry_matches hp pair n \<and> \<not> entry_stops pair n) chain
       @ take 1 (dropWhile (\<lambda>n. \<not> entry_matches hp pair n \<and> \<not> entry_stops pair n) chain)"

definition probe :: "heap \<Rightarrow> string_hash_pair_t \<Rightarrow> unique_string_node list \<Rightarrow> probe_result" where
  "probe hp pair chain =
     (let v = visited hp pair chain in
      if \<exists>n \<in> set v. entry_matches hp pair n then Found (length v - 1)
      else NotFound (if v = [] then None else Some (length v - 1)))"

text \<open>The pair of flag and \<^verbatim>\<open>*node\<close> that stands for a result of the lookup.\<close>

fun probe_as_flag :: "probe_result \<Rightarrow> bool \<times> nat option" where
  "probe_as_flag (Found i) = (True, Some i)"
| "probe_as_flag (NotFound at) = (False, at)"

text \<open>Bytes from a string literal, for the examples.\<close>

definition bytes :: "string \<Rightarrow> byte list" where
  "bytes s = map (\<lambda>c. of_char c) s"

subsection \<open>Derived operations\<close>

text \<open>The interner \<^verbatim>\<open>unique_strings_freeze\<close> leaves: the table is gone and the block
  holds the used bytes and nothing more.\<close>

definition frozen_interner :: "allocation \<Rightarrow> unique_strings_t \<Rightarrow> unique_strings_t" where
  "frozen_interner al u =
     \<lparr>buffer = \<lparr>used = used (buffer u), capacity = used (buffer u), data = base al,
                block = take (used (buffer u)) (block (buffer u))\<rparr>,
      buckets = None\<rparr>"

text \<open>\<^verbatim>\<open>get(add(s))\<close>: the string read through the handle that \<open>unique_strings_add\<close>
  returns, in the heap it leaves.\<close>

definition get_add :: "allocation \<Rightarrow> heap \<Rightarrow> ptr \<Rightarrow> byte list \<Rightarrow> error + byte list" where
  "get_add al hp us s =
     (case unique_strings_add al hp us s of
        Inl e \<Rightarrow> Inl e
      | Inr (h, hp') \<Rightarrow> get_string hp' h)"

text \<open>Adding the strings of a list in turn, and the handles the calls return.\<close>

fun add_all ::
  "allocation \<Rightarrow> heap \<Rightarrow> ptr \<Rightarrow> byte list list \<Rightarrow> error + (unique_string_handle_t list \<times> heap)" where
  "add_all al hp us [] = Inr ([], hp)"
| "add_all al hp us (s # ss) =
     (case unique_strings_add al hp us s of
        Inl e \<Rightarrow> Inl e
      | Inr (h, hp1) \<Rightarrow>
          (case add_all al hp1 us ss of
             Inl e \<Rightarrow> Inl e
           | Inr (hs, hp2) \<Rightarrow> Inr (h # hs, hp2)))"

definition handles_of ::
  "error + (unique_string_handle_t list \<times> heap) \<Rightarrow> error + unique_string_handle_t list" where
  "handles_of r = (case r of Inl e \<Rightarrow> Inl e | Inr (hs, hp) \<Rightarrow> Inr hs)"

text \<open>Two live blocks do not overlap: what the allocator guarantees of the blocks of
  two interners.\<close>

definition blocks_disjoint :: "buffer_t \<Rightarrow> buffer_t \<Rightarrow> bool" where
  "blocks_disjoint b1 b2 =
     (data b1 + capacity b1 \<le> data b2 \<or> data b2 + capacity b2 \<le> data b1)"

text \<open>The buffer of the interner at \<open>us\<close> after a run.\<close>

definition buffer_after :: "error + heap \<Rightarrow> ptr \<Rightarrow> buffer_t option" where
  "buffer_after r us = (case r of Inl e \<Rightarrow> None | Inr hp \<Rightarrow> map_option buffer (hp us))"

subsection \<open>Example values\<close>

text \<open>The interner \<open>unique_strings_create\<close> makes, and the buffer after the addition
  of a string of 1021 bytes \<^verbatim>\<open>'x'\<close> to it, with the allocator \<open>ex_alloc\<close>.\<close>

definition ex_created :: unique_strings_t where
  "ex_created = \<lparr>buffer = \<lparr>used = 0, capacity = 0, data = NULL, block = []\<rparr>,
                 buckets = Some (replicate UNIQUE_STRING_BUCKETS [])\<rparr>"

definition ex_b1022 :: buffer_t where
  "ex_b1022 = \<lparr>used = 1022, capacity = 1024, data = 8192,
               block = replicate 1021 0x78 @ [0, 0xAA, 0xAA]\<rparr>"

definition ex_b10 :: buffer_t where
  "ex_b10 = \<lparr>used = 10, capacity = 1024, data = 8192, block = replicate 1024 0xAA\<rparr>"

definition ex_alloc :: allocation where
  "ex_alloc = \<lparr>base = 8192, junk = (\<lambda>_. 0xAA)\<rparr>"

definition ex_hp0 :: heap where
  "ex_hp0 = snd (unique_strings_create (\<lambda>_. None) 16)"

definition ex_mem :: memory where
  "ex_mem = str_memory (bytes ''abcde'')"

definition ex_mem_moved :: memory where
  "ex_mem_moved = (\<lambda>a. if a < 7 then 0xFF else ex_mem (a - 7))"

definition ex_strings :: "byte list list" where
  "ex_strings = [bytes ''Chrome'', replicate 2000 0x78, bytes ''Mozilla'', replicate 1500 0x79]"

definition ex_ops :: "operation list" where
  "ex_ops = map (Add ex_alloc) ex_strings @ [Freeze ex_alloc]"

definition ex_frozen0 :: heap where
  "ex_frozen0 = projr (unique_strings_freeze ex_alloc ex_hp0 16)"

definition ex_added :: "error + (unique_string_handle_t \<times> heap)" where
  "ex_added = unique_strings_add ex_alloc ex_hp0 16 (bytes ''Mozilla'')"

text \<open>The interner at address 16 after \<^verbatim>\<open>add("a")\<close> and \<^verbatim>\<open>add("c")\<close> with the
  allocator \<open>ex_alloc\<close>, and a frozen interner at address 48 with a block of its own.\<close>

definition ex_u_ac :: unique_strings_t where
  "ex_u_ac =
     \<lparr>buffer = \<lparr>used = 4, capacity = 1024, data = 8192,
                block = [97, 0, 99, 0] @ replicate 1020 0xAA\<rparr>,
      buckets = Some ((replicate 32 [])
                  [18 := [\<lparr>hash = 3270753234, buffer_ptr = \<lparr>addr = 0, parent = 16\<rparr>\<rparr>,
                          \<lparr>hash = 3852019730, buffer_ptr = \<lparr>addr = 2, parent = 16\<rparr>\<rparr>]])\<rparr>"

definition ex_u_other :: unique_strings_t where
  "ex_u_other =
     \<lparr>buffer = \<lparr>used = 2, capacity = 1024, data = 12288,
                block = [120, 0] @ replicate 1022 0xAA\<rparr>,
      buckets = None\<rparr>"

definition ex_hp_two :: heap where
  "ex_hp_two = (\<lambda>_. None)(16 \<mapsto> ex_u_ac, 48 \<mapsto> ex_u_other)"

section \<open>Properties\<close>

subsection \<open>The digest depends on the bytes only\<close>

lemma read_u32_cong:
  assumes "\<forall>i<4. mem1 (p + i) = mem2 (q + i)"
  shows "read_u32 mem1 p = read_u32 mem2 q"
proof -
  have "mem1 p = mem2 q" using assms[rule_format, of 0] by simp
  moreover have "mem1 (p + 1) = mem2 (q + 1)" using assms[rule_format, of 1] by simp
  moreover have "mem1 (p + 2) = mem2 (q + 2)" using assms[rule_format, of 2] by simp
  moreover have "mem1 (p + 3) = mem2 (q + 3)" using assms[rule_format, of 3] by simp
  ultimately show ?thesis unfolding read_u32_def by simp
qed

text \<open>On two memories that agree on the \<open>len\<close> bytes read, the loop advances both
  pointers by the same distance and leaves the same rest and the same mixed value.\<close>

lemma murmur_loop_content:
  "(\<forall>i. int i < len \<longrightarrow> mem1 (p + i) = mem2 (q + i)) \<Longrightarrow>
   \<exists>d l' h'. murmur_loop mem1 p len h = (p + d, l', h') \<and> murmur_loop mem2 q len h = (q + d, l', h')
       \<and> l' < 4 \<and> (\<forall>i. int i < l' \<longrightarrow> mem1 (p + d + i) = mem2 (q + d + i))"
proof (induction mem1 p len h arbitrary: q rule: murmur_loop.induct)
  case (1 mem data len h)
  show ?case
  proof (cases "len \<ge> 4")
    case False
    then have "murmur_loop mem data len h = (data + 0, len, h)"
      and "murmur_loop mem2 q len h = (q + 0, len, h)"
      by (simp_all add: murmur_loop.simps)
    moreover have "len < 4" using False by simp
    ultimately show ?thesis using "1.prems" by (metis add.right_neutral)
  next
    case True
    have rd: "read_u32 mem data = read_u32 mem2 q"
      using "1.prems" True by (intro read_u32_cong) auto
    define h2 where "h2 = h * murmur_m XOR
        ((read_u32 mem data * murmur_m XOR drop_bit murmur_r (read_u32 mem data * murmur_m)) * murmur_m)"
    have shift: "\<forall>i. int i < len - 4 \<longrightarrow> mem (data + 4 + i) = mem2 (q + 4 + i)"
    proof (intro allI impI)
      fix i :: nat assume "int i < len - 4"
      then have "int (4 + i) < len" by simp
      then have "mem (data + (4 + i)) = mem2 (q + (4 + i))" using "1.prems" by blast
      then show "mem (data + 4 + i) = mem2 (q + 4 + i)" by (simp add: add.assoc)
    qed
    from "1.IH"[OF True refl refl refl refl refl refl shift]
    obtain d l' h' where
      IH: "murmur_loop mem (data + 4) (len - 4) h2 = (data + 4 + d, l', h')"
          "murmur_loop mem2 (q + 4) (len - 4) h2 = (q + 4 + d, l', h')"
          "l' < 4" "\<forall>i. int i < l' \<longrightarrow> mem (data + 4 + d + i) = mem2 (q + 4 + d + i)"
      unfolding h2_def by blast
    have "murmur_loop mem data len h = (data + (4 + d), l', h')"
      using True IH(1) by (subst murmur_loop.simps) (simp add: Let_def h2_def add.assoc)
    moreover have "murmur_loop mem2 q len h = (q + (4 + d), l', h')"
      using True IH(2) by (subst murmur_loop.simps) (simp add: Let_def h2_def rd[symmetric] add.assoc)
    moreover have "\<forall>i. int i < l' \<longrightarrow> mem (data + (4 + d) + i) = mem2 (q + (4 + d) + i)"
      using IH(4) by (simp add: add.assoc)
    ultimately show ?thesis using IH(3) by blast
  qed
qed

lemma murmur_switch_content:
  assumes l: "l < 4" and eq: "\<forall>i. int i < l \<longrightarrow> mem1 (p + i) = mem2 (q + i)"
  shows "murmur_switch mem1 p l h = murmur_switch mem2 q l h"
proof -
  have e0: "1 \<le> l \<Longrightarrow> mem1 p = mem2 q" using eq[rule_format, of 0] by simp
  have e1: "2 \<le> l \<Longrightarrow> mem1 (p + 1) = mem2 (q + 1)" using eq[rule_format, of 1] by simp
  have e2: "3 \<le> l \<Longrightarrow> mem1 (p + 2) = mem2 (q + 2)" using eq[rule_format, of 2] by simp
  show ?thesis using e0 e1 e2 by (auto simp: murmur_switch_def Let_def)
qed

text \<open>
  C7. The digest is a function of the bytes and of the length only: two calls that
  find the same \<open>len\<close> bytes, in whatever memory and at whatever address, return the
  same value.
\<close>

theorem hash_murmur2_content_only:
  assumes "\<forall>i. int i < len \<longrightarrow> mem1 (p + i) = mem2 (q + i)"
  shows "hash_murmur2 mem1 p len seed = hash_murmur2 mem2 q len seed"
proof -
  from murmur_loop_content[OF assms, of "seed XOR word_of_int len"]
  obtain d l' h' where
    L: "murmur_loop mem1 p len (seed XOR word_of_int len) = (p + d, l', h')"
       "murmur_loop mem2 q len (seed XOR word_of_int len) = (q + d, l', h')"
       "l' < 4" "\<forall>i. int i < l' \<longrightarrow> mem1 (p + d + i) = mem2 (q + d + i)"
    by blast
  show ?thesis
    by (simp add: hash_murmur2_def L(1,2) murmur_switch_content[OF L(3,4)])
qed

theorem hash_murmur2_content_only_witness:
  "hash_murmur2 ex_mem 0 5 MURMUR_SEED = hash_murmur2 ex_mem_moved 7 5 MURMUR_SEED"
proof -
  have h: "\<forall>i. int i < 5 \<longrightarrow> ex_mem (0 + i) = ex_mem_moved (7 + i)"
    by (simp add: ex_mem_moved_def)
  show ?thesis using hash_murmur2_content_only[OF h, of MURMUR_SEED] by simp
qed

subsection \<open>Strings in the block\<close>

lemma c_str_no_zero: "0 \<notin> set (c_str s)"
  unfolding c_str_def by (metis (mono_tags, lifting) set_takeWhileD)

lemma c_str_id: "0 \<notin> set s \<Longrightarrow> c_str s = s"
  unfolding c_str_def by (simp add: takeWhile_eq_all_conv) metis

lemma view_block_stored:
  assumes "stored b a"
  shows "view_block (block b) a = Inr (takeWhile (\<lambda>c. c \<noteq> 0) (drop a (take (used b) (block b))))"
proof -
  let ?blk = "block b" and ?u = "used b"
  have split: "drop a ?blk = drop a (take ?u ?blk) @ drop (a - length (take ?u ?blk)) (drop ?u ?blk)"
    by (metis append_take_drop_id drop_append)
  have z: "0 \<in> set (drop a (take ?u ?blk))" using assms by (simp add: stored_def)
  then have "0 \<in> set (drop a ?blk)" by (subst split) simp
  moreover have "takeWhile (\<lambda>c. c \<noteq> 0) (drop a ?blk) = takeWhile (\<lambda>c. c \<noteq> 0) (drop a (take ?u ?blk))"
    by (subst split) (rule takeWhile_append1[OF z], simp)
  ultimately show ?thesis by (simp add: view_block_def)
qed

lemma stored_frame:
  assumes pre: "take (used b) (block b') = take (used b) (block b)"
    and le: "used b \<le> used b'" and st: "stored b a"
  shows "stored b' a" and "view_block (block b') a = view_block (block b) a"
proof -
  let ?u = "used b" and ?u' = "used b'"
  have tk: "take ?u' (block b') = take ?u (block b) @ drop ?u (take ?u' (block b'))"
  proof -
    have "take ?u (take ?u' (block b')) = take ?u (block b)"
      using le pre by (simp add: min_def)
    then show ?thesis by (metis append_take_drop_id)
  qed
  have z: "0 \<in> set (drop a (take ?u (block b)))" using st by (simp add: stored_def)
  have dr: "drop a (take ?u' (block b')) =
        drop a (take ?u (block b)) @ drop (a - length (take ?u (block b))) (drop ?u (take ?u' (block b')))"
    by (subst tk) simp
  show st': "stored b' a" unfolding stored_def by (subst dr) (use z in simp)
  have "takeWhile (\<lambda>c. c \<noteq> 0) (drop a (take ?u' (block b'))) =
        takeWhile (\<lambda>c. c \<noteq> 0) (drop a (take ?u (block b)))"
    by (subst dr) (rule takeWhile_append1[OF z], simp)
  then show "view_block (block b') a = view_block (block b) a"
    by (simp add: view_block_stored[OF st] view_block_stored[OF st'])
qed

lemma strcmp_block_view:
  "view_block blk a = Inr t \<Longrightarrow> strcmp_block blk a s = Inr (t = c_str s)"
proof (induction s arbitrary: a t)
  case Nil
  then have z: "0 \<in> set (drop a blk)" and t: "t = takeWhile (\<lambda>c. c \<noteq> 0) (drop a blk)"
    by (auto simp: view_block_def split: if_splits)
  from z have a: "a < length blk" by (cases "a < length blk") auto
  then have d: "drop a blk = blk ! a # drop (Suc a) blk" by (simp add: Cons_nth_drop_Suc)
  show ?case using a t by (simp add: d c_str_def)
next
  case (Cons c cs)
  then have z: "0 \<in> set (drop a blk)" and t: "t = takeWhile (\<lambda>c. c \<noteq> 0) (drop a blk)"
    by (auto simp: view_block_def split: if_splits)
  from z have a: "a < length blk" by (cases "a < length blk") auto
  then have d: "drop a blk = blk ! a # drop (Suc a) blk" by (simp add: Cons_nth_drop_Suc)
  show ?case
  proof (cases "c = 0")
    case True
    then show ?thesis using a t by (simp add: d c_str_def)
  next
    case c: False
    show ?thesis
    proof (cases "blk ! a = c")
      case True
      with c z d have z': "0 \<in> set (drop (a + 1) blk)" by auto
      then have "view_block blk (a + 1) = Inr (takeWhile (\<lambda>c. c \<noteq> 0) (drop (a + 1) blk))"
        by (simp add: view_block_def)
      from Cons.IH[OF this] show ?thesis using a c True t by (simp add: d c_str_def)
    next
      case False
      then show ?thesis using a c t by (auto simp: d c_str_def)
    qed
  qed
qed

lemma memcpy_block_view:
  assumes "memcpy_block blk a (t @ [0]) = Inr blk'" and "0 \<notin> set t"
  shows "view_block blk' a = Inr t" and "take a blk' = take a blk" and "length blk' = length blk"
    and "0 \<in> set (drop a (take (a + length t + 1) blk'))"
proof -
  from assms(1) have le: "a + (length t + 1) \<le> length blk"
    and eq: "blk' = take a blk @ (t @ [0]) @ drop (a + (length t + 1)) blk"
    by (auto simp: memcpy_block_def split: if_splits)
  have la: "length (take a blk) = a" using le by simp
  have d: "drop a blk' = t @ 0 # drop (a + (length t + 1)) blk"
    unfolding eq using la by simp
  have "takeWhile (\<lambda>c. c \<noteq> 0) (t @ 0 # drop (a + (length t + 1)) blk) = t"
    using assms(2) by (simp add: takeWhile_tail) (metis (mono_tags, lifting) takeWhile_eq_all_conv)
  then show "view_block blk' a = Inr t" by (simp add: view_block_def d)
  show "take a blk' = take a blk" unfolding eq using la by simp
  show "length blk' = length blk" unfolding eq using le by simp
  have "take (a + length t + 1) blk' = take a blk @ t @ [0]"
    unfolding eq using la by simp
  then show "0 \<in> set (drop a (take (a + length t + 1) blk'))" using la by simp
qed

subsection \<open>Allocation and node creation\<close>

lemma buffer_alloc_eq:
  assumes "length (block b) = capacity b"
  shows "buffer_alloc al bp b sz =
           (\<lparr>addr = used b, parent = bp\<rparr>,
            if used b + sz \<ge> capacity b
            then b\<lparr>used := used b + sz,
                   capacity := capacity b + 1024 * (sz div 1024 + 1),
                   data := base al,
                   block := block b @ map (junk al)
                              [capacity b..<capacity b + 1024 * (sz div 1024 + 1)]\<rparr>
            else b\<lparr>used := used b + sz\<rparr>)"
  using assms by (simp add: buffer_alloc_def Let_def realloc_def)

lemma less_next_multiple: "0 < d \<Longrightarrow> (n::nat) < d * (n div d + 1)"
  using dividend_less_div_times[of d n] by (simp add: algebra_simps)

lemma buffer_alloc_ok:
  assumes ok: "buffer_ok b" and al: "buffer_alloc al bp b sz = (h, b1)"
  shows "h = \<lparr>addr = used b, parent = bp\<rparr>" and "used b1 = used b + sz"
    and "buffer_ok b1" and "take (capacity b) (block b1) = block b"
proof -
  have len: "length (block b) = capacity b" and le: "used b \<le> capacity b"
    using ok by (simp_all add: buffer_ok_def)
  define g where "g = 1024 * (sz div 1024 + 1)"
  have sz: "sz < g" unfolding g_def by (rule less_next_multiple) simp
  note eq = al[unfolded buffer_alloc_eq[OF len], folded g_def]
  show "h = \<lparr>addr = used b, parent = bp\<rparr>" using eq by simp
  show "used b1 = used b + sz"
    by (cases "capacity b \<le> used b + sz") (use eq in auto)
  show "buffer_ok b1"
  proof (cases "capacity b \<le> used b + sz")
    case True
    then have "b1 = b\<lparr>used := used b + sz, capacity := capacity b + g, data := base al,
        block := block b @ map (junk al) [capacity b..<capacity b + g]\<rparr>"
      using eq by simp
    then show ?thesis using le len sz by (simp add: buffer_ok_def)
  next
    case False
    then have "b1 = b\<lparr>used := used b + sz\<rparr>" using eq by simp
    then show ?thesis using False len by (simp add: buffer_ok_def)
  qed
  show "take (capacity b) (block b1) = block b"
    by (cases "capacity b \<le> used b + sz") (use eq len in auto)
qed

lemma node_create_ok:
  assumes ok: "buffer_ok b"
  shows "\<exists>b'. unique_string_node_create al bp b pair =
            Inr (\<lparr>hash = string_hash_pair_t.hash pair,
                  buffer_ptr = \<lparr>addr = used b, parent = bp\<rparr>\<rparr>, b')
          \<and> buffer_ok b' \<and> used b' = used b + strlen (str pair) + 1
          \<and> take (used b) (block b') = take (used b) (block b)
          \<and> stored b' (used b)
          \<and> view_block (block b') (used b) = Inr (c_str (str pair))"
proof -
  let ?sz = "strlen (str pair) + 1"
  obtain h b1 where al: "buffer_alloc al bp b ?sz = (h, b1)" by (cases "buffer_alloc al bp b ?sz")
  note A = buffer_alloc_ok[OF ok al]
  have b1: "used b1 \<le> capacity b1" "length (block b1) = capacity b1"
    using A(3) by (simp_all add: buffer_ok_def)
  have fits: "used b + length (c_str (str pair) @ [0]) \<le> length (block b1)"
    using b1 A(2) by (simp add: strlen_def)
  then obtain blk where mc: "memcpy_block (block b1) (used b) (c_str (str pair) @ [0]) = Inr blk"
    by (simp add: memcpy_block_def)
  note M = memcpy_block_view[OF mc c_str_no_zero]
  let ?b' = "b1\<lparr>block := blk\<rparr>"
  have cr: "unique_string_node_create al bp b pair =
      Inr (\<lparr>hash = string_hash_pair_t.hash pair, buffer_ptr = \<lparr>addr = used b, parent = bp\<rparr>\<rparr>, ?b')"
    using al mc A(1) by (simp add: unique_string_node_create_def)
  have ok': "buffer_ok ?b'" using b1 M(3) by (simp add: buffer_ok_def)
  have u': "used ?b' = used b + strlen (str pair) + 1" using A(2) by simp
  have "take (used b) (block b1) = take (used b) (block b)"
  proof -
    have "take (used b) (take (capacity b) (block b1)) = take (used b) (block b1)"
      using ok by (simp add: buffer_ok_def min_def)
    then show ?thesis using A(4) by simp
  qed
  then have pre: "take (used b) (block ?b') = take (used b) (block b)" using M(2) by simp
  have st: "stored ?b' (used b)" using M(4) A(2) by (simp add: stored_def strlen_def add.assoc)
  have vw: "view_block (block ?b') (used b) = Inr (c_str (str pair))" using M(1) by simp
  show ?thesis using cr ok' u' pre st vw by blast
qed

subsection \<open>The lookup loop\<close>

lemma strcmp_handle_view:
  "get_string hp h = Inr t \<Longrightarrow> strcmp_handle hp h s = Inr (t = c_str s)"
  by (auto simp: get_string_def strcmp_handle_def strcmp_block_view split: sum.splits)

lemma visited_Nil: "visited hp pair [] = []"
  by (simp add: visited_def)

lemma visited_Cons:
  "visited hp pair (n # rest) =
     (if entry_matches hp pair n \<or> entry_stops pair n then [n] else n # visited hp pair rest)"
  by (simp add: visited_def)

lemma visited_length: "length (visited hp pair chain) \<le> length chain"
  by (induction chain) (simp_all add: visited_Nil visited_Cons)

lemma visited_nonempty: "chain \<noteq> [] \<Longrightarrow> visited hp pair chain \<noteq> []"
  by (cases chain) (simp_all add: visited_Cons)

lemma visited_match:
  "\<exists>n \<in> set (visited hp pair chain). entry_matches hp pair n \<Longrightarrow>
   length (visited hp pair chain) - 1 < length chain \<and>
   entry_matches hp pair (chain ! (length (visited hp pair chain) - 1))"
proof (induction chain)
  case Nil
  then show ?case by (simp add: visited_Nil)
next
  case (Cons n rest)
  show ?case
  proof (cases "entry_matches hp pair n \<or> entry_stops pair n")
    case True
    then show ?thesis using Cons.prems by (simp add: visited_Cons)
  next
    case False
    then have m: "\<exists>n \<in> set (visited hp pair rest). entry_matches hp pair n"
      using Cons.prems by (simp add: visited_Cons)
    then have ne: "visited hp pair rest \<noteq> []" by auto
    from Cons.IH[OF m] ne False show ?thesis
      by (cases "visited hp pair rest") (simp_all add: visited_Cons)
  qed
qed

lemma find_node_loop_visited:
  assumes "\<forall>n \<in> set chain. \<exists>t. get_string hp (buffer_ptr n) = Inr t"
  shows "find_node_loop hp pair chain i node =
           Inr (if \<exists>n \<in> set (visited hp pair chain). entry_matches hp pair n
                then (True, Some (i + (length (visited hp pair chain) - 1)))
                else (False, if visited hp pair chain = [] then node
                             else Some (i + (length (visited hp pair chain) - 1))))"
  using assms
proof (induction chain arbitrary: i node)
  case Nil
  then show ?case by (simp add: visited_Nil)
next
  case (Cons n rest)
  from Cons.prems obtain t where t: "get_string hp (buffer_ptr n) = Inr t" by auto
  have cmp: "strcmp_handle hp (buffer_ptr n) (str pair) = Inr (t = c_str (str pair))"
    by (rule strcmp_handle_view[OF t])
  have m: "entry_matches hp pair n \<longleftrightarrow> hash n = string_hash_pair_t.hash pair \<and> t = c_str (str pair)"
    by (simp add: entry_matches_def t)
  have rest: "\<forall>n \<in> set rest. \<exists>t. get_string hp (buffer_ptr n) = Inr t" using Cons.prems by simp
  note IH = Cons.IH[OF rest, of "i + 1" "Some i"]
  show ?case
  proof (cases "entry_matches hp pair n")
    case True
    then show ?thesis using m cmp by (simp add: visited_Cons)
  next
    case nm: False
    show ?thesis
    proof (cases "entry_stops pair n")
      case True
      then have lt: "hash n < string_hash_pair_t.hash pair" by (simp add: entry_stops_def)
      then have "hash n \<noteq> string_hash_pair_t.hash pair" by auto
      then show ?thesis using True nm lt by (simp add: visited_Cons)
    next
      case False
      then have nlt: "\<not> hash n < string_hash_pair_t.hash pair" by (simp add: entry_stops_def)
      have step: "find_node_loop hp pair (n # rest) i node = find_node_loop hp pair rest (i + 1) (Some i)"
        using nm nlt m cmp by (cases "hash n = string_hash_pair_t.hash pair") simp_all
      have v: "visited hp pair (n # rest) = n # visited hp pair rest"
        using nm False by (simp add: visited_Cons)
      show ?thesis unfolding step IH v using nm
        by (cases "visited hp pair rest") auto
    qed
  qed
qed

lemma get_bucket_index_less: "get_bucket_index pair < UNIQUE_STRING_BUCKETS"
  by (simp add: get_bucket_index_def UNIQUE_STRING_BUCKETS_def unat_mod)

lemma find_node_probe_eq:
  assumes "buckets u = Some bs" and "length bs = UNIQUE_STRING_BUCKETS"
    and "\<forall>n \<in> set (bs ! get_bucket_index pair). \<exists>t. get_string hp (buffer_ptr n) = Inr t"
  shows "unique_strings_find_node hp u pair =
           Inr (probe_as_flag (probe hp pair (bs ! get_bucket_index pair)))"
  using assms(1,2) get_bucket_index_less[of pair]
  by (simp add: unique_strings_find_node_def find_node_loop_visited[OF assms(3)] probe_def Let_def)

lemma probe_Found:
  "probe hp pair chain = Found i \<Longrightarrow> i < length chain \<and> entry_matches hp pair (chain ! i)"
  using visited_match[of hp pair chain]
  by (auto simp: probe_def Let_def split: if_splits)

lemma probe_NotFound:
  "probe hp pair chain = NotFound (Some i) \<Longrightarrow> i < length chain"
  using visited_length[of hp pair chain]
  by (auto simp: probe_def Let_def split: if_splits) (metis One_nat_def Suc_pred length_greater_0_conv less_eq_Suc_le order_less_le_trans lessI)

subsection \<open>Adding to a well-formed interner\<close>

lemma interner_okD:
  assumes "interner_ok hp us"
  shows "\<exists>u. us \<noteq> NULL \<and> hp us = Some u \<and> deref hp us = Inr u \<and> buffer_ok (buffer u)
           \<and> (\<forall>bs. buckets u = Some bs \<longrightarrow> length bs = UNIQUE_STRING_BUCKETS
                 \<and> (\<forall>chain \<in> set bs. \<forall>n \<in> set chain. handle_ok hp us (buffer_ptr n)))"
proof -
  from assms obtain u where u: "us \<noteq> NULL" "hp us = Some u"
    by (auto simp: interner_ok_def split: option.splits)
  moreover have "deref hp us = Inr u" using u by (simp add: deref_def)
  moreover have "buffer_ok (buffer u)" using assms u by (simp add: interner_ok_def)
  moreover have "\<forall>bs. buckets u = Some bs \<longrightarrow> length bs = UNIQUE_STRING_BUCKETS
                 \<and> (\<forall>chain \<in> set bs. \<forall>n \<in> set chain. handle_ok hp us (buffer_ptr n))"
    using assms u by (auto simp: interner_ok_def)
  ultimately show ?thesis by blast
qed

lemma handle_ok_get_string:
  assumes "handle_ok hp us h" and "us \<noteq> NULL"
  shows "\<exists>t. get_string hp h = Inr t"
proof -
  from assms(1) obtain u where u: "hp us = Some u" "parent h = us" "stored (buffer u) (addr h)"
    by (auto simp: handle_ok_def split: option.splits)
  show ?thesis using u assms(2) view_block_stored[OF u(3)]
    by (simp add: get_string_def deref_def)
qed

lemma handle_frame:
  assumes u: "hp us = Some u" and nn: "us \<noteq> NULL"
    and pre: "take (used (buffer u)) (block (buffer u')) = take (used (buffer u)) (block (buffer u))"
    and le: "used (buffer u) \<le> used (buffer u')"
    and h: "handle_ok hp us h"
  shows "handle_ok (hp(us \<mapsto> u')) us h" and "get_string (hp(us \<mapsto> u')) h = get_string hp h"
proof -
  from h u have p: "parent h = us" and st: "stored (buffer u) (addr h)"
    by (simp_all add: handle_ok_def)
  note F = stored_frame[OF pre le st]
  show "handle_ok (hp(us \<mapsto> u')) us h" using p F(1) by (simp add: handle_ok_def)
  show "get_string (hp(us \<mapsto> u')) h = get_string hp h"
    using p u nn F(2) by (simp add: get_string_def deref_def)
qed

lemma set_insert_after: "set (insert_after chain i n) = insert n (set chain)"
proof -
  have "set (take (Suc i) chain) \<union> set (drop (Suc i) chain) = set chain"
    by (metis append_take_drop_id set_append)
  then show ?thesis by (auto simp: insert_after_def)
qed

text \<open>What \<open>unique_strings_add\<close> does on a well-formed interner that has its table.\<close>

lemma add_building:
  assumes ok: "interner_ok hp us" and bd: "building hp us"
  shows "\<exists>h hp'. unique_strings_add al hp us s = Inr (h, hp')
          \<and> interner_ok hp' us \<and> building hp' us
          \<and> handle_ok hp' us h \<and> get_string hp' h = Inr (c_str s)
          \<and> (\<forall>h0. handle_ok hp us h0 \<longrightarrow>
                 handle_ok hp' us h0 \<and> get_string hp' h0 = get_string hp h0)"
proof -
  from interner_okD[OF ok] obtain u where nn: "us \<noteq> NULL" and u: "hp us = Some u"
    and dr: "deref hp us = Inr u" and bok: "buffer_ok (buffer u)"
    and tab: "\<forall>bs. buckets u = Some bs \<longrightarrow> length bs = UNIQUE_STRING_BUCKETS
                 \<and> (\<forall>chain \<in> set bs. \<forall>n \<in> set chain. handle_ok hp us (buffer_ptr n))"
    by blast
  have len: "\<And>bs. buckets u = Some bs \<Longrightarrow> length bs = UNIQUE_STRING_BUCKETS"
    using tab by blast
  have nodes: "\<And>bs chain n. buckets u = Some bs \<Longrightarrow> chain \<in> set bs \<Longrightarrow> n \<in> set chain
           \<Longrightarrow> handle_ok hp us (buffer_ptr n)"
    using tab by blast
  from bd u obtain bs where bs: "buckets u = Some bs" by (auto simp: building_def)
  define pair where "pair = string_hash_pair_prepare s"
  define k where "k = get_bucket_index pair"
  have sp: "str pair = s" by (simp add: pair_def string_hash_pair_prepare_def)
  have k: "k < length bs" using len[OF bs] get_bucket_index_less[of pair] by (simp add: k_def)
  then have kin: "bs ! k \<in> set bs" by simp
  have readable: "\<forall>n \<in> set (bs ! k). \<exists>t. get_string hp (buffer_ptr n) = Inr t"
    using nodes[OF bs kin] handle_ok_get_string nn by blast
  have fn: "unique_strings_find_node hp u pair = Inr (probe_as_flag (probe hp pair (bs ! k)))"
    unfolding k_def using bs len[OF bs] readable[unfolded k_def] by (rule find_node_probe_eq)
  show ?thesis
  proof (cases "probe hp pair (bs ! k)")
    case (Found i)
    from probe_Found[OF Found] have i: "i < length (bs ! k)"
      and m: "entry_matches hp pair (bs ! k ! i)" by simp_all
    have add: "unique_strings_add al hp us s = Inr (buffer_ptr (bs ! k ! i), hp)"
      using dr fn Found bs i
      by (simp add: unique_strings_add_def Let_def pair_def[symmetric] k_def[symmetric] node_at_def)
    have hok: "handle_ok hp us (buffer_ptr (bs ! k ! i))"
      using nodes[OF bs kin] i by simp
    have gs: "get_string hp (buffer_ptr (bs ! k ! i)) = Inr (c_str s)"
      using m sp by (simp add: entry_matches_def)
    show ?thesis using add ok bd hok gs by blast
  next
    case (NotFound at)
    from node_create_ok[OF bok, of al us pair] obtain b' where
      cr: "unique_string_node_create al us (buffer u) pair =
            Inr (\<lparr>hash = string_hash_pair_t.hash pair,
                  buffer_ptr = \<lparr>addr = used (buffer u), parent = us\<rparr>\<rparr>, b')"
      and ok': "buffer_ok b'" and u': "used b' = used (buffer u) + strlen (str pair) + 1"
      and pre: "take (used (buffer u)) (block b') = take (used (buffer u)) (block (buffer u))"
      and st: "stored b' (used (buffer u))"
      and vw: "view_block (block b') (used (buffer u)) = Inr (c_str (str pair))"
      by blast
    define new_node where "new_node =
      \<lparr>hash = string_hash_pair_t.hash pair, buffer_ptr = \<lparr>addr = used (buffer u), parent = us\<rparr>\<rparr>"
    define chain where "chain = (case at of Some i \<Rightarrow> insert_after (bs ! k) i new_node | None \<Rightarrow> [new_node])"
    define u1 where "u1 = u\<lparr>buffer := b', buckets := Some (bs[k := chain])\<rparr>"
    define h where "h = \<lparr>addr = used (buffer u), parent = us\<rparr>"
    have add: "unique_strings_add al hp us s = Inr (h, hp(us \<mapsto> u1))"
      unfolding u1_def chain_def new_node_def h_def
      using dr fn NotFound bs cr
      by (simp add: unique_strings_add_def Let_def pair_def[symmetric] k_def[symmetric])
    have b1: "buffer u1 = b'" and t1: "buckets u1 = Some (bs[k := chain])" by (simp_all add: u1_def)
    have pre1: "take (used (buffer u)) (block (buffer u1)) = take (used (buffer u)) (block (buffer u))"
      using pre b1 by simp
    have le1: "used (buffer u) \<le> used (buffer u1)" using u' b1 by simp
    have frame: "\<And>h0. handle_ok hp us h0 \<Longrightarrow>
        handle_ok (hp(us \<mapsto> u1)) us h0 \<and> get_string (hp(us \<mapsto> u1)) h0 = get_string hp h0"
      using handle_frame[of hp us u u1, OF u nn pre1 le1] by blast
    have hok: "handle_ok (hp(us \<mapsto> u1)) us h" using st b1 by (simp add: handle_ok_def h_def)
    have gs: "get_string (hp(us \<mapsto> u1)) h = Inr (c_str s)"
      using vw b1 nn sp by (simp add: get_string_def deref_def h_def)
    have chain_sub: "set chain \<subseteq> insert new_node (set (bs ! k))"
      by (cases at) (simp_all add: chain_def set_insert_after)
    have all_ok: "\<forall>c \<in> set (bs[k := chain]). \<forall>n \<in> set c. handle_ok (hp(us \<mapsto> u1)) us (buffer_ptr n)"
    proof (intro ballI)
      fix c n assume c: "c \<in> set (bs[k := chain])" and n: "n \<in> set c"
      from c have "c = chain \<or> c \<in> set bs" using set_update_subset_insert by fastforce
      then consider "n = new_node" | c0 where "c0 \<in> set bs" "n \<in> set c0"
        using n chain_sub kin by auto
      then show "handle_ok (hp(us \<mapsto> u1)) us (buffer_ptr n)"
      proof cases
        case 1
        then show ?thesis using hok by (simp add: new_node_def h_def)
      next
        case 2
        then show ?thesis using nodes[OF bs] frame by blast
      qed
    qed
    have ok1: "interner_ok (hp(us \<mapsto> u1)) us"
      using nn ok' b1 t1 len[OF bs] all_ok by (simp add: interner_ok_def)
    have bd1: "building (hp(us \<mapsto> u1)) us" using t1 by (simp add: building_def)
    show ?thesis using add ok1 bd1 hok gs frame by blast
  qed
qed

subsection \<open>Teardown, freeze and sequences of operations\<close>

lemma free_nodes_rev: "chain \<noteq> [] \<Longrightarrow> unique_string_free_nodes chain = Inr (rev chain)"
proof (induction chain)
  case Nil
  then show ?case by simp
next
  case (Cons n rest)
  then show ?case by (cases "rest = []") simp_all
qed

lemma free_buckets_loop_all: "free_buckets_loop bs = Inr (concat (map rev bs))"
proof (induction bs)
  case Nil
  show ?case by simp
next
  case (Cons chain bs)
  then show ?case by (cases "chain = []") (simp_all add: free_nodes_rev)
qed

lemma free_buckets_eq:
  assumes "buckets u = Some bs" and "length bs = UNIQUE_STRING_BUCKETS"
  shows "unique_string_free_buckets u = Inr (concat (map rev bs), u\<lparr>buckets := None\<rparr>)"
  using assms by (simp add: unique_string_free_buckets_def free_buckets_loop_all)

lemma free_buckets_none:
  assumes "buckets u = None"
  shows "unique_string_free_buckets u = Inr ([], u\<lparr>buckets := None\<rparr>)"
  using assms by (simp add: unique_string_free_buckets_def)

lemma free_buckets_ok:
  assumes "buckets u = None \<or> (\<exists>bs. buckets u = Some bs \<and> length bs = UNIQUE_STRING_BUCKETS)"
  shows "\<exists>freed. unique_string_free_buckets u = Inr (freed, u\<lparr>buckets := None\<rparr>)"
  using assms free_buckets_eq free_buckets_none by blast

lemma buffer_compact_eq:
  assumes "buffer_ok b"
  shows "buffer_compact al b =
           \<lparr>used = used b, capacity = used b, data = base al, block = take (used b) (block b)\<rparr>"
  using assms by (simp add: buffer_compact_def realloc_def buffer_ok_def)

lemma interner_fields:
  "u\<lparr>buckets := t, buffer := b\<rparr> = \<lparr>buffer = b, buckets = t\<rparr>"
  by (cases u) simp

lemma freeze_ok:
  assumes ok: "interner_ok hp us" and u: "hp us = Some u"
  shows "unique_strings_freeze al hp us = Inr (hp(us \<mapsto> frozen_interner al u))"
    and "interner_ok (hp(us \<mapsto> frozen_interner al u)) us"
    and "\<not> building (hp(us \<mapsto> frozen_interner al u)) us"
    and "\<And>h0. handle_ok hp us h0 \<Longrightarrow>
           handle_ok (hp(us \<mapsto> frozen_interner al u)) us h0 \<and>
           get_string (hp(us \<mapsto> frozen_interner al u)) h0 = get_string hp h0"
proof -
  from interner_okD[OF ok] u have nn: "us \<noteq> NULL" and dr: "deref hp us = Inr u"
    and bok: "buffer_ok (buffer u)"
    and tab: "\<forall>bs. buckets u = Some bs \<longrightarrow> length bs = UNIQUE_STRING_BUCKETS"
    by auto
  have "buckets u = None \<or> (\<exists>bs. buckets u = Some bs \<and> length bs = UNIQUE_STRING_BUCKETS)"
    using tab by (cases "buckets u") auto
  from free_buckets_ok[OF this] obtain freed where
    fb: "unique_string_free_buckets u = Inr (freed, u\<lparr>buckets := None\<rparr>)" by blast
  let ?u' = "frozen_interner al u"
  show fr: "unique_strings_freeze al hp us = Inr (hp(us \<mapsto> ?u'))"
    using dr fb
    by (simp add: unique_strings_freeze_def buffer_compact_eq[OF bok] frozen_interner_def
        interner_fields)
  show "interner_ok (hp(us \<mapsto> ?u')) us"
    using nn bok by (simp add: interner_ok_def buffer_ok_def frozen_interner_def)
  show "\<not> building (hp(us \<mapsto> ?u')) us" by (simp add: building_def frozen_interner_def)
  fix h0 assume h0: "handle_ok hp us h0"
  have pre: "take (used (buffer u)) (block (buffer ?u')) = take (used (buffer u)) (block (buffer u))"
    by (simp add: frozen_interner_def)
  have le: "used (buffer u) \<le> used (buffer ?u')" by (simp add: frozen_interner_def)
  show "handle_ok (hp(us \<mapsto> ?u')) us h0 \<and> get_string (hp(us \<mapsto> ?u')) h0 = get_string hp h0"
    using handle_frame[of hp us u ?u', OF u nn pre le h0] by blast
qed

lemma add_frozen:
  assumes "hp us = Some u" and "us \<noteq> NULL" and "buckets u = None"
  shows "unique_strings_add al hp us s = Inl NullDeref"
  using assms by (simp add: unique_strings_add_def deref_def unique_strings_find_node_def Let_def)

lemma apply_operation_ok:
  assumes ok: "interner_ok hp us" and ap: "apply_operation hp us x = Inr hp'"
  shows "interner_ok hp' us \<and>
         (\<forall>h0. handle_ok hp us h0 \<longrightarrow> handle_ok hp' us h0 \<and> get_string hp' h0 = get_string hp h0)"
proof -
  from interner_okD[OF ok] obtain u where nn: "us \<noteq> NULL" and u: "hp us = Some u" by blast
  show ?thesis
  proof (cases x)
    case (Add al s)
    have bd: "building hp us"
    proof (rule ccontr)
      assume "\<not> building hp us"
      then have "buckets u = None" using u by (simp add: building_def)
      from add_frozen[of hp us u, OF u nn this] ap Add show False by simp
    qed
    from add_building[OF ok bd, where al=al and s=s] ap Add show ?thesis by auto
  next
    case (Freeze al)
    from freeze_ok[OF ok u, where al=al] ap Freeze show ?thesis by auto
  qed
qed

lemma run_ok:
  "interner_ok hp us \<Longrightarrow> run hp us ops = Inr hp' \<Longrightarrow>
   interner_ok hp' us \<and>
   (\<forall>h0. handle_ok hp us h0 \<longrightarrow> handle_ok hp' us h0 \<and> get_string hp' h0 = get_string hp h0)"
proof (induction ops arbitrary: hp)
  case Nil
  then show ?case by simp
next
  case (Cons x xs)
  from Cons.prems(2) obtain hp1 where a: "apply_operation hp us x = Inr hp1"
    and r: "run hp1 us xs = Inr hp'"
    by (auto split: sum.splits)
  from apply_operation_ok[OF Cons.prems(1) a] Cons.IH[OF _ r] show ?case by auto
qed

subsection \<open>Reachable interners\<close>

lemma created_ok:
  assumes "us \<noteq> NULL"
  shows "interner_ok (snd (unique_strings_create hp us)) us"
    and "building (snd (unique_strings_create hp us)) us"
  using assms
  by (simp_all add: unique_strings_create_def interner_ok_def building_def buffer_ok_def)

lemma ex_hp0_ok: "interner_ok ex_hp0 16" "building ex_hp0 16"
  unfolding ex_hp0_def by (rule created_ok, simp add: NULL_def)+

text \<open>Every reachable interner is well formed.\<close>

lemma reachable_ok: "reachable hp us \<Longrightarrow> interner_ok hp us"
proof (induction rule: reachable.induct)
  case (created us hp)
  then show ?case by (rule created_ok)
next
  case (operated hp us x hp')
  from apply_operation_ok[OF operated.IH operated.hyps(2)] show ?case by blast
qed

text \<open>What a call of \<open>unique_strings_add\<close> that returned has done.\<close>

lemma add_returned:
  assumes ok: "interner_ok hp us" and add: "unique_strings_add al hp us s = Inr (h, hp1)"
  shows "interner_ok hp1 us" and "handle_ok hp1 us h" and "get_string hp1 h = Inr (c_str s)"
    and "\<And>h0. handle_ok hp us h0 \<Longrightarrow> handle_ok hp1 us h0 \<and> get_string hp1 h0 = get_string hp h0"
    and "building hp1 us"
proof -
  from interner_okD[OF ok] obtain u where nn: "us \<noteq> NULL" and u: "hp us = Some u" by blast
  have bd: "building hp us"
  proof (rule ccontr)
    assume "\<not> building hp us"
    then have "buckets u = None" using u by (simp add: building_def)
    from add_frozen[of hp us u, OF u nn this] add show False by simp
  qed
  from add_building[OF ok bd, where al=al and s=s] add
  show "interner_ok hp1 us" and "handle_ok hp1 us h" and "get_string hp1 h = Inr (c_str s)"
    and "\<And>h0. handle_ok hp us h0 \<Longrightarrow> handle_ok hp1 us h0 \<and> get_string hp1 h0 = get_string hp h0"
    and "building hp1 us"
    by auto
qed

lemma two_adds:
  assumes ok: "interner_ok hp us"
    and a1: "unique_strings_add al1 hp us s1 = Inr (h1, hp1)"
    and r: "run hp1 us ops = Inr hp2"
    and a2: "unique_strings_add al2 hp2 us s2 = Inr (h2, hp3)"
  shows "get_string hp3 h1 = Inr (c_str s1)" and "get_string hp3 h2 = Inr (c_str s2)"
proof -
  note A1 = add_returned[OF ok a1]
  from run_ok[OF A1(1) r] A1(2,3)
  have ok2: "interner_ok hp2 us" and hok2: "handle_ok hp2 us h1"
    and g2: "get_string hp2 h1 = Inr (c_str s1)" by auto
  note A2 = add_returned[OF ok2 a2]
  show "get_string hp3 h1 = Inr (c_str s1)" using A2(4)[OF hok2] g2 by simp
  show "get_string hp3 h2 = Inr (c_str s2)" by (rule A2(3))
qed

lemma c_str_bytes_Mozilla: "c_str (bytes ''Mozilla'') = bytes ''Mozilla''"
  by (simp add: c_str_def bytes_def)

lemma ex_added_ok:
  "\<exists>h hp1. ex_added = Inr (h, hp1) \<and> interner_ok hp1 16 \<and> building hp1 16
      \<and> handle_ok hp1 16 h \<and> get_string hp1 h = Inr (bytes ''Mozilla'')"
  using add_building[OF ex_hp0_ok, where al=ex_alloc and s="bytes ''Mozilla''"]
  by (simp add: ex_added_def c_str_bytes_Mozilla) blast

text \<open>Which sequences of operations run to their end.\<close>

lemma run_frozen:
  "interner_ok hp us \<Longrightarrow> \<not> building hp us \<Longrightarrow>
   (if list_all is_freeze xs then \<exists>hp'. run hp us xs = Inr hp' else run hp us xs = Inl NullDeref)"
proof (induction xs arbitrary: hp)
  case Nil
  show ?case by simp
next
  case (Cons x xs)
  from interner_okD[OF Cons.prems(1)] obtain u where nn: "us \<noteq> NULL" and u: "hp us = Some u" by blast
  show ?case
  proof (cases x)
    case (Add al s)
    have "buckets u = None" using Cons.prems(2) u by (simp add: building_def)
    from add_frozen[of hp us u, OF u nn this] Add show ?thesis by simp
  next
    case (Freeze al)
    note F = freeze_ok[OF Cons.prems(1) u, where al=al]
    from Cons.IH[OF F(2) F(3)] F(1) Freeze show ?thesis by simp
  qed
qed

lemma run_building:
  "interner_ok hp us \<Longrightarrow> building hp us \<Longrightarrow>
   (if no_add_after_freeze xs then \<exists>hp'. run hp us xs = Inr hp' else run hp us xs = Inl NullDeref)"
proof (induction xs arbitrary: hp)
  case Nil
  show ?case by simp
next
  case (Cons x xs)
  show ?case
  proof (cases x)
    case (Add al s)
    from add_building[OF Cons.prems, where al=al and s=s] obtain h hp1 where
      a: "unique_strings_add al hp us s = Inr (h, hp1)" and ok1: "interner_ok hp1 us"
      and bd1: "building hp1 us" by blast
    from Cons.IH[OF ok1 bd1] a Add show ?thesis by simp
  next
    case (Freeze al)
    from interner_okD[OF Cons.prems(1)] obtain u where u: "hp us = Some u" by blast
    note F = freeze_ok[OF Cons.prems(1) u, where al=al]
    from run_frozen[OF F(2) F(3), of xs] F(1) Freeze show ?thesis by simp
  qed
qed

subsection \<open>Growth of the buffer\<close>

lemma size_t_of_id: "n < 2 ^ 64 \<Longrightarrow> size_t_of n = n"
  by (simp add: size_t_of_def)

lemma buffer_alloc_in_range:
  assumes u: "used b + sz < 2 ^ 64" and c: "capacity b + 1024 * (sz div 1024 + 1) < 2 ^ 64"
  shows "buffer_alloc_size_t al bp b sz = buffer_alloc al bp b sz"
proof -
  define g where "g = 1024 * (sz div 1024 + 1)"
  have cg: "capacity b + g < 2 ^ 64" using c by (simp add: g_def)
  then have g: "g < 2 ^ 64" by simp
  have "sz div 1024 + 1 \<le> g" by (simp add: g_def)
  with g have q: "sz div 1024 + 1 < 2 ^ 64" by simp
  have e1: "size_t_of (used b + sz) = used b + sz" by (rule size_t_of_id[OF u])
  have e2: "size_t_of (sz div 1024 + 1) = sz div 1024 + 1" by (rule size_t_of_id[OF q])
  have e3: "size_t_of g = g" by (rule size_t_of_id[OF g])
  have e4: "size_t_of (capacity b + g) = capacity b + g" by (rule size_t_of_id[OF cg])
  show ?thesis
    unfolding buffer_alloc_size_t_def buffer_alloc_def e1 e2 g_def[symmetric] e3 e4
    by (simp add: Let_def e1 realloc_def)
qed

text \<open>Out of the range the source wraps: a request of \<open>2 ^ 64 - 1\<close> bytes at
  \<open>used = 10\<close> leaves \<open>used = 9\<close> and does not grow the block.\<close>

lemma buffer_alloc_size_t_wraps:
  "buffer_alloc_size_t al bp ex_b10 (2 ^ 64 - 1) = (\<lparr>addr = 10, parent = bp\<rparr>, ex_b10\<lparr>used := 9\<rparr>)"
  by (simp add: buffer_alloc_size_t_def size_t_of_def ex_b10_def Let_def)

text \<open>
  C2, as the code has it. As long as \<open>used + size\<close> and the new capacity stay in
  the range of \<^verbatim>\<open>size_t\<close>, \<^verbatim>\<open>buffer_alloc\<close> grows the block exactly when
  \<open>used + size \<ge> capacity\<close>, so also when the request would fill the block to the
  last byte; it grows by \<open>1024 * (size div 1024 + 1)\<close>, the new block starts with the
  bytes of the old one, and the handle is the old \<open>used\<close>. This holds of the function
  with the sums of the source and of the function the interner is modelled with.
\<close>

theorem buffer_alloc_growth:
  assumes "length (block b) = capacity b"
    and "used b + sz < 2 ^ 64"
    and "capacity b + 1024 * (sz div 1024 + 1) < 2 ^ 64"
  shows "buffer_alloc_size_t al bp b sz =
           (\<lparr>addr = used b, parent = bp\<rparr>,
            if used b + sz \<ge> capacity b
            then b\<lparr>used := used b + sz,
                   capacity := capacity b + 1024 * (sz div 1024 + 1),
                   data := base al,
                   block := block b @ map (junk al)
                              [capacity b..<capacity b + 1024 * (sz div 1024 + 1)]\<rparr>
            else b\<lparr>used := used b + sz\<rparr>)
         \<and> buffer_alloc al bp b sz = buffer_alloc_size_t al bp b sz"
proof -
  have same: "buffer_alloc_size_t al bp b sz = buffer_alloc al bp b sz"
    using assms(2,3) by (rule buffer_alloc_in_range)
  show ?thesis
  proof (cases "capacity b \<le> used b + sz")
    case True
    then show ?thesis using buffer_alloc_eq[OF assms(1), of al bp sz] same by simp
  next
    case False
    then show ?thesis using buffer_alloc_eq[OF assms(1), of al bp sz] same by simp
  qed
qed

theorem buffer_alloc_growth_witness:
  "buffer_alloc_size_t ex_alloc 16 ex_b1022 2 =
     (\<lparr>addr = 1022, parent = 16\<rparr>,
      \<lparr>used = 1024, capacity = 2048, data = 8192,
       block = (replicate 1021 0x78 @ [0, 0xAA, 0xAA]) @ map (\<lambda>_. 0xAA) [1024..<2048]\<rparr>)
   \<and> buffer_alloc ex_alloc 16 ex_b1022 2 = buffer_alloc_size_t ex_alloc 16 ex_b1022 2"
proof -
  have "length (block ex_b1022) = capacity ex_b1022" by (simp add: ex_b1022_def)
  moreover have "used ex_b1022 + 2 < (2::nat) ^ 64" by (simp add: ex_b1022_def)
  moreover have "capacity ex_b1022 + 1024 * (2 div 1024 + 1) < (2::nat) ^ 64" by (simp add: ex_b1022_def)
  ultimately show ?thesis
    using buffer_alloc_growth[of ex_b1022 2 ex_alloc 16] by (simp add: ex_b1022_def ex_alloc_def)
qed

text \<open>An addition that finds no stored string equal to the new one allocates.\<close>

lemma interner_fields2:
  "u\<lparr>buffer := b, buckets := t\<rparr> = \<lparr>buffer = b, buckets = t\<rparr>"
  by (cases u) simp

lemma add_allocates:
  assumes ok: "interner_ok hp us" and bd: "building hp us" and u: "hp us = Some u"
    and fresh: "\<forall>h. get_string hp h \<noteq> Inr (c_str s)"
  shows "\<exists>n b' t'. unique_string_node_create al us (buffer u) (string_hash_pair_prepare s) = Inr (n, b')
           \<and> unique_strings_add al hp us s = Inr (buffer_ptr n, hp(us \<mapsto> \<lparr>buffer = b', buckets = Some t'\<rparr>))"
proof -
  from interner_okD[OF ok] u have nn: "us \<noteq> NULL" and dr: "deref hp us = Inr u"
    and bok: "buffer_ok (buffer u)"
    and tab: "\<forall>bs. buckets u = Some bs \<longrightarrow> length bs = UNIQUE_STRING_BUCKETS
                 \<and> (\<forall>chain \<in> set bs. \<forall>n \<in> set chain. handle_ok hp us (buffer_ptr n))"
    by auto
  from bd u obtain bs where bs: "buckets u = Some bs" by (auto simp: building_def)
  define pair where "pair = string_hash_pair_prepare s"
  define k where "k = get_bucket_index pair"
  have sp: "str pair = s" by (simp add: pair_def string_hash_pair_prepare_def)
  have len: "length bs = UNIQUE_STRING_BUCKETS" using tab bs by blast
  have k: "k < length bs" using len get_bucket_index_less[of pair] by (simp add: k_def)
  then have kin: "bs ! k \<in> set bs" by simp
  have readable: "\<forall>n \<in> set (bs ! k). \<exists>t. get_string hp (buffer_ptr n) = Inr t"
    using tab bs kin handle_ok_get_string nn by blast
  have fn: "unique_strings_find_node hp u pair = Inr (probe_as_flag (probe hp pair (bs ! k)))"
    unfolding k_def using bs len readable[unfolded k_def] by (rule find_node_probe_eq)
  obtain at where nf: "probe hp pair (bs ! k) = NotFound at"
  proof (cases "probe hp pair (bs ! k)")
    case (Found i)
    from probe_Found[OF Found] have "get_string hp (buffer_ptr (bs ! k ! i)) = Inr (c_str s)"
      by (simp add: entry_matches_def sp)
    with fresh show ?thesis by blast
  next
    case (NotFound at)
    then show ?thesis by (rule that)
  qed
  from node_create_ok[OF bok, of al us pair] obtain n b' where
    cr: "unique_string_node_create al us (buffer u) pair = Inr (n, b')" by blast
  define chain where "chain = (case at of Some i \<Rightarrow> insert_after (bs ! k) i n | None \<Rightarrow> [n])"
  have "unique_strings_add al hp us s =
      Inr (buffer_ptr n, hp(us \<mapsto> \<lparr>buffer = b', buckets = Some (bs[k := chain])\<rparr>))"
    unfolding chain_def using dr fn nf bs cr
    by (simp add: unique_strings_add_def Let_def pair_def[symmetric] k_def[symmetric] interner_fields2)
  with cr show ?thesis unfolding pair_def by blast
qed

lemma view_block_head: "view_block blk a = Inr (c # cs) \<Longrightarrow> c \<in> set blk"
proof -
  assume "view_block blk a = Inr (c # cs)"
  then have "takeWhile (\<lambda>c. c \<noteq> 0) (drop a blk) = c # cs"
    by (auto simp: view_block_def split: if_splits)
  then have "c \<in> set (takeWhile (\<lambda>c. c \<noteq> 0) (drop a blk))" by simp
  then have "c \<in> set (drop a blk)" by (rule set_takeWhileD[THEN conjunct1])
  then show ?thesis by (rule in_set_dropD)
qed

lemma node_create_sizes:
  assumes "unique_string_node_create al bp b pair = Inr (n, b')"
  shows "used b' = used (snd (buffer_alloc al bp b (strlen (str pair) + 1)))"
    and "capacity b' = capacity (snd (buffer_alloc al bp b (strlen (str pair) + 1)))"
  using assms
  by (auto simp: unique_string_node_create_def split: prod.splits sum.splits)

lemma ex_hp0_eq: "ex_hp0 16 = Some ex_created" "\<And>p. p \<noteq> 16 \<Longrightarrow> ex_hp0 p = None"
  by (simp_all add: ex_hp0_def unique_strings_create_def ex_created_def)

lemma ex_hp0_fresh: "get_string ex_hp0 h \<noteq> Inr t"
  by (cases "parent h = 16")
     (simp_all add: get_string_def deref_def ex_hp0_eq ex_created_def view_block_def)

lemma strlen_replicate: "x \<noteq> 0 \<Longrightarrow> strlen (replicate n x) = n" "x \<noteq> 0 \<Longrightarrow> c_str (replicate n x) = replicate n x"
  by (simp_all add: strlen_def c_str_def)

lemma str_prepare: "str (string_hash_pair_prepare s) = s"
  by (simp add: string_hash_pair_prepare_def)

lemma ex_first_add:
  "\<exists>h t. unique_strings_add ex_alloc ex_hp0 16 (replicate 1021 0x78)
            = Inr (h, ex_hp0(16 \<mapsto> \<lparr>buffer = ex_b1022, buckets = Some t\<rparr>))"
proof -
  from add_allocates[OF ex_hp0_ok ex_hp0_eq(1), where al=ex_alloc and s="replicate 1021 0x78"]
    ex_hp0_fresh
  obtain n b' t' where
    cr: "unique_string_node_create ex_alloc 16 (buffer ex_created)
           (string_hash_pair_prepare (replicate 1021 0x78)) = Inr (n, b')"
    and a: "unique_strings_add ex_alloc ex_hp0 16 (replicate 1021 0x78)
           = Inr (buffer_ptr n, ex_hp0(16 \<mapsto> \<lparr>buffer = b', buckets = Some t'\<rparr>))"
    by blast
  have "b' = ex_b1022"
    using cr
    by (simp add: unique_string_node_create_def buffer_alloc_def realloc_def memcpy_block_def
        str_prepare strlen_replicate ex_created_def ex_alloc_def ex_b1022_def Let_def
        drop_map split: if_splits)
  with a show ?thesis by blast
qed

lemma ex_b1022_fresh: "view_block (block ex_b1022) a \<noteq> Inr (bytes ''b'')"
proof
  assume "view_block (block ex_b1022) a = Inr (bytes ''b'')"
  then have "view_block (block ex_b1022) a = Inr (98 # [])" by (simp add: bytes_def)
  from view_block_head[OF this] show False by (simp add: ex_b1022_def)
qed

lemma c_str_bytes_b: "c_str (bytes ''b'') = bytes ''b''" "strlen (bytes ''b'') = 1"
  by (simp_all add: strlen_def c_str_def bytes_def)

lemma ex_second_add:
  assumes a1: "unique_strings_add ex_alloc ex_hp0 16 (replicate 1021 0x78) = Inr (h, hp1)"
  shows "\<exists>h2 hp2 b2 t2. unique_strings_add ex_alloc hp1 16 (bytes ''b'') = Inr (h2, hp2)
           \<and> hp2 16 = Some \<lparr>buffer = b2, buckets = Some t2\<rparr> \<and> capacity b2 = 2048"
proof -
  from ex_first_add a1 obtain t where hp1: "hp1 = ex_hp0(16 \<mapsto> \<lparr>buffer = ex_b1022, buckets = Some t\<rparr>)"
    by auto
  note A = add_returned[OF ex_hp0_ok(1) a1]
  have u1: "hp1 16 = Some \<lparr>buffer = ex_b1022, buckets = Some t\<rparr>" by (simp add: hp1)
  have fresh: "\<forall>h. get_string hp1 h \<noteq> Inr (c_str (bytes ''b''))"
  proof
    fix h show "get_string hp1 h \<noteq> Inr (c_str (bytes ''b''))"
      by (cases "parent h = 16")
         (simp_all add: get_string_def deref_def hp1 ex_hp0_eq c_str_bytes_b ex_b1022_fresh NULL_def)
  qed
  from add_allocates[OF A(1) A(5) u1 fresh, where al=ex_alloc] obtain n b2 t2 where
    cr: "unique_string_node_create ex_alloc 16 ex_b1022 (string_hash_pair_prepare (bytes ''b'')) = Inr (n, b2)"
    and a2: "unique_strings_add ex_alloc hp1 16 (bytes ''b'')
               = Inr (buffer_ptr n, hp1(16 \<mapsto> \<lparr>buffer = b2, buckets = Some t2\<rparr>))"
    by auto
  have "capacity b2 = 2048"
    using node_create_sizes(2)[OF cr]
    by (simp add: str_prepare c_str_bytes_b buffer_alloc_def realloc_def ex_b1022_def Let_def)
  with a2 show ?thesis by auto
qed

lemma ex_third_add:
  "\<exists>h hp b t. unique_strings_add ex_alloc ex_hp0 16 (replicate 1023 0x78) = Inr (h, hp)
      \<and> hp 16 = Some \<lparr>buffer = b, buckets = Some t\<rparr> \<and> capacity b = 2048"
proof -
  from add_allocates[OF ex_hp0_ok ex_hp0_eq(1), where al=ex_alloc and s="replicate 1023 0x78"]
    ex_hp0_fresh
  obtain n b' t' where
    cr: "unique_string_node_create ex_alloc 16 (buffer ex_created)
           (string_hash_pair_prepare (replicate 1023 0x78)) = Inr (n, b')"
    and a: "unique_strings_add ex_alloc ex_hp0 16 (replicate 1023 0x78)
           = Inr (buffer_ptr n, ex_hp0(16 \<mapsto> \<lparr>buffer = b', buckets = Some t'\<rparr>))"
    by blast
  have "capacity b' = 2048"
    using node_create_sizes(2)[OF cr]
    by (simp add: str_prepare strlen_replicate buffer_alloc_def realloc_def ex_created_def Let_def)
  with a show ?thesis by auto
qed

text \<open>
  On a new interner the addition of a string of 1021 bytes leaves \<open>used = 1022\<close> and
  \<open>capacity = 1024\<close>. The addition of \<^verbatim>\<open>"b"\<close> then requests 2 bytes, which do not
  exceed the capacity, and the block grows to 2048 bytes. And on a new interner the
  addition of a string of 1023 bytes requests 1024 bytes: the capacity becomes 2048,
  not 1024 * ceil(1024 / 1024).
\<close>

theorem buffer_alloc_growth_counterexample:
  "buffer_after (run ex_hp0 16 [Add ex_alloc (replicate 1021 0x78)]) 16 = Some ex_b1022
   \<and> \<not> (used ex_b1022 + 2 > capacity ex_b1022)
   \<and> map_option capacity (buffer_after
         (run ex_hp0 16 [Add ex_alloc (replicate 1021 0x78), Add ex_alloc (bytes ''b'')]) 16) = Some 2048
   \<and> map_option capacity (buffer_after
         (run ex_hp0 16 [Add ex_alloc (replicate 1023 0x78)]) 16) = Some 2048"
proof -
  from ex_first_add obtain h t where
    a1: "unique_strings_add ex_alloc ex_hp0 16 (replicate 1021 0x78)
            = Inr (h, ex_hp0(16 \<mapsto> \<lparr>buffer = ex_b1022, buckets = Some t\<rparr>))" by blast
  from ex_second_add[OF a1] obtain h2 hp2 b2 t2 where
    a2: "unique_strings_add ex_alloc (ex_hp0(16 \<mapsto> \<lparr>buffer = ex_b1022, buckets = Some t\<rparr>)) 16 (bytes ''b'')
           = Inr (h2, hp2)"
    and u2: "hp2 16 = Some \<lparr>buffer = b2, buckets = Some t2\<rparr>" and c2: "capacity b2 = 2048" by blast
  from ex_third_add obtain h3 hp3 b3 t3 where
    a3: "unique_strings_add ex_alloc ex_hp0 16 (replicate 1023 0x78) = Inr (h3, hp3)"
    and u3: "hp3 16 = Some \<lparr>buffer = b3, buckets = Some t3\<rparr>" and c3: "capacity b3 = 2048" by blast
  have p1: "buffer_after (run ex_hp0 16 [Add ex_alloc (replicate 1021 0x78)]) 16 = Some ex_b1022"
    by (simp add: buffer_after_def a1)
  have p2: "\<not> (used ex_b1022 + 2 > capacity ex_b1022)" by (simp add: ex_b1022_def)
  have p3: "map_option capacity (buffer_after
         (run ex_hp0 16 [Add ex_alloc (replicate 1021 0x78), Add ex_alloc (bytes ''b'')]) 16) = Some 2048"
    by (simp add: buffer_after_def a1 a2 u2 c2)
  have p4: "map_option capacity (buffer_after
         (run ex_hp0 16 [Add ex_alloc (replicate 1023 0x78)]) 16) = Some 2048"
    by (simp add: buffer_after_def a3 u3 c3)
  from p1 p2 p3 p4 show ?thesis by (intro conjI)
qed

subsection \<open>Handles stay valid\<close>

text \<open>
  C4, as the code has it. A handle that \<open>unique_strings_add\<close> returned on a
  well-formed interner reads the string that was added. Every sequence of further
  operations in which no addition follows a freeze (additions, with or without
  reallocation, then freezes) runs to its end, whatever the allocator answers, and
  the handle reads the same string after it. Every other sequence stops at its first
  addition after a freeze, which reads the table through a null pointer.
\<close>

theorem handle_stable:
  assumes ok: "interner_ok hp us"
    and add: "unique_strings_add al hp us s = Inr (h, hp1)"
  shows "get_string hp1 h = Inr (c_str s)
         \<and> (\<forall>ops. no_add_after_freeze ops \<longrightarrow>
               (\<exists>hp2. run hp1 us ops = Inr hp2 \<and> get_string hp2 h = Inr (c_str s)))
         \<and> (\<forall>ops. \<not> no_add_after_freeze ops \<longrightarrow> run hp1 us ops = Inl NullDeref)
         \<and> (\<forall>ops hp2. run hp1 us ops = Inr hp2 \<longrightarrow> get_string hp2 h = Inr (c_str s))"
proof -
  note A = add_returned[OF ok add]
  have stable: "get_string hp2 h = Inr (c_str s)" if "run hp1 us ops = Inr hp2" for ops hp2
    using run_ok[OF A(1) that] A(2,3) by simp
  have runs: "\<exists>hp2. run hp1 us ops = Inr hp2 \<and> get_string hp2 h = Inr (c_str s)"
    if "no_add_after_freeze ops" for ops
  proof -
    from run_building[OF A(1) A(5), of ops] that obtain hp2 where
      "run hp1 us ops = Inr hp2" by auto
    with stable show ?thesis by blast
  qed
  have fails: "run hp1 us ops = Inl NullDeref" if "\<not> no_add_after_freeze ops" for ops
    using run_building[OF A(1) A(5), of ops] that by simp
  show ?thesis using A(3) stable runs fails by blast
qed

theorem handle_stable_witness:
  "get_string
     (projr (run (snd (projr (unique_strings_add ex_alloc ex_hp0 16 (bytes ''Mozilla'')))) 16 ex_ops))
     (fst (projr (unique_strings_add ex_alloc ex_hp0 16 (bytes ''Mozilla''))))
   = Inr (bytes ''Mozilla'')"
proof -
  from add_building[OF ex_hp0_ok, where al=ex_alloc and s="bytes ''Mozilla''"] obtain h hp1 where
    a: "unique_strings_add ex_alloc ex_hp0 16 (bytes ''Mozilla'') = Inr (h, hp1)" by blast
  have seq: "no_add_after_freeze ex_ops" by (simp add: ex_ops_def ex_strings_def)
  from handle_stable[OF ex_hp0_ok(1) a] seq obtain hp2 where
    "run hp1 16 ex_ops = Inr hp2" and "get_string hp2 h = Inr (c_str (bytes ''Mozilla''))"
    by blast
  then show ?thesis by (simp add: a c_str_bytes_Mozilla)
qed

text \<open>After \<open>add("Mozilla")\<close> on a new interner, the sequence \<open>freeze()\<close>,
  \<open>add("Chrome")\<close> does not run to its end: there is no state in which the handle
  could be read.\<close>

theorem handle_stable_counterexample:
  "\<not> isl ex_added
   \<and> run (snd (projr ex_added)) 16 [Freeze ex_alloc, Add ex_alloc (bytes ''Chrome'')] = Inl NullDeref"
proof -
  from ex_added_ok obtain h hp1 where a: "ex_added = Inr (h, hp1)" and ok1: "interner_ok hp1 16"
    and bd1: "building hp1 16" by blast
  have "\<not> no_add_after_freeze [Freeze ex_alloc, Add ex_alloc (bytes ''Chrome'')]" by simp
  with run_building[OF ok1 bd1, of "[Freeze ex_alloc, Add ex_alloc (bytes ''Chrome'')]"]
  show ?thesis by (simp add: a)
qed

subsection \<open>Round trip\<close>

text \<open>
  C3, as the code has it. On a well-formed interner that still has its table (the
  Building phase), \<open>get(add(s))\<close> is \<open>s\<close> for every string without a zero byte, the
  empty string included. Every reachable interner is well formed (\<open>reachable_ok\<close>),
  and it has its table until the first freeze.
\<close>

theorem round_trip_building:
  assumes ok: "interner_ok hp us" and bd: "building hp us" and nz: "0 \<notin> set s"
  shows "get_add al hp us s = Inr s"
proof -
  from add_building[OF ok bd, where al=al and s=s] obtain h hp' where
    a: "unique_strings_add al hp us s = Inr (h, hp')" and g: "get_string hp' h = Inr (c_str s)"
    by blast
  show ?thesis using a g c_str_id[OF nz] by (simp add: get_add_def)
qed

theorem round_trip_building_witness:
  "get_add ex_alloc ex_hp0 16 [] = Inr [] \<and>
   get_add ex_alloc ex_hp0 16 (bytes ''Mozilla'') = Inr (bytes ''Mozilla'')"
proof -
  have "0 \<notin> set (bytes ''Mozilla'')" by (simp add: bytes_def)
  from round_trip_building[OF ex_hp0_ok this] round_trip_building[OF ex_hp0_ok, of "[]"]
  show ?thesis by simp
qed

text \<open>On the interner that \<open>unique_strings_create\<close> and \<open>unique_strings_freeze\<close>
  leave, \<open>get(add("a"))\<close> is the dereference of a null pointer.\<close>

theorem round_trip_frozen_counterexample:
  "unique_strings_freeze ex_alloc ex_hp0 16 = Inr ex_frozen0 \<and>
   get_add ex_alloc ex_frozen0 16 (bytes ''a'') = Inl NullDeref"
  by (simp add: ex_frozen0_def ex_hp0_def unique_strings_create_def unique_strings_freeze_def
      deref_def NULL_def unique_string_free_buckets_def UNIQUE_STRING_BUCKETS_def
      free_buckets_loop_all get_add_def unique_strings_add_def unique_strings_find_node_def Let_def)

subsection \<open>Freeze\<close>



subsection \<open>Adding after the freeze\<close>

text \<open>
  C6, as the code has it. After \<open>add(s)\<close> and \<open>freeze()\<close> the handle still reads
  \<open>s\<close>, and a further \<open>add(s)\<close> returns no handle: \<open>_unique_strings_find_node\<close>
  reads \<^verbatim>\<open>us->buckets[bucket_id]\<close> through the null pointer that the freeze left.
\<close>

theorem add_after_freeze:
  assumes ok: "interner_ok hp us"
    and add: "unique_strings_add al hp us s = Inr (h, hp1)"
  shows "\<exists>hp2. unique_strings_freeze al2 hp1 us = Inr hp2
           \<and> get_string hp2 h = Inr (c_str s)
           \<and> unique_strings_add al3 hp2 us s = Inl NullDeref"
proof -
  note A = add_returned[OF ok add]
  from interner_okD[OF A(1)] obtain u1 where nn: "us \<noteq> NULL" and u1: "hp1 us = Some u1" by blast
  let ?hp2 = "hp1(us \<mapsto> frozen_interner al2 u1)"
  note F = freeze_ok[OF A(1) u1, where al=al2]
  have "get_string ?hp2 h = Inr (c_str s)" using F(4)[OF A(2)] A(3) by simp
  moreover have "unique_strings_add al3 ?hp2 us s = Inl NullDeref"
    by (rule add_frozen[of ?hp2 us "frozen_interner al2 u1"]) (simp_all add: nn frozen_interner_def)
  ultimately show ?thesis using F(1) by blast
qed

theorem add_after_freeze_witness:
  "get_string (projr (unique_strings_freeze ex_alloc (snd (projr ex_added)) 16)) (fst (projr ex_added))
     = Inr (bytes ''Mozilla'')
   \<and> unique_strings_add ex_alloc (projr (unique_strings_freeze ex_alloc (snd (projr ex_added)) 16)) 16
       (bytes ''Mozilla'') = Inl NullDeref"
proof -
  from ex_added_ok obtain h hp1 where a: "ex_added = Inr (h, hp1)" by blast
  from add_after_freeze[OF ex_hp0_ok(1) a[unfolded ex_added_def], of ex_alloc ex_alloc]
  show ?thesis by (auto simp: a c_str_bytes_Mozilla)
qed

text \<open>The sequence of the claim on a new interner: the addition and the freeze
  return, the second addition does not.\<close>

theorem add_after_freeze_counterexample:
  "\<not> isl (run ex_hp0 16 [Add ex_alloc (bytes ''Mozilla''), Freeze ex_alloc])
   \<and> run ex_hp0 16 [Add ex_alloc (bytes ''Mozilla''), Freeze ex_alloc, Add ex_alloc (bytes ''Mozilla'')]
       = Inl NullDeref"
proof -
  from ex_added_ok obtain h hp1 where a: "ex_added = Inr (h, hp1)" and ok1: "interner_ok hp1 16" by blast
  from interner_okD[OF ok1] obtain u1 where nn: "16 \<noteq> NULL" and u1: "hp1 16 = Some u1" by blast
  let ?hp2 = "hp1(16 \<mapsto> frozen_interner ex_alloc u1)"
  have f: "unique_strings_freeze ex_alloc hp1 16 = Inr ?hp2"
    by (rule freeze_ok(1)[OF ok1 u1])
  have b: "unique_strings_add ex_alloc ?hp2 16 (bytes ''Mozilla'') = Inl NullDeref"
    by (rule add_frozen[of ?hp2 16 "frozen_interner ex_alloc u1"]) (simp_all add: nn frozen_interner_def)
  show ?thesis using a[unfolded ex_added_def] f b by simp
qed

subsection \<open>Destroy\<close>

text \<open>
  C10. \<open>unique_strings_destroy\<close> of a null pointer returns and changes nothing; of a
  well-formed interner, with its table or frozen, it returns and the interner is gone;
  and the teardown of the table frees nothing when the table pointer is null.
\<close>

theorem destroy_safe:
  "unique_strings_destroy hp NULL = Inr hp
   \<and> (interner_ok hp us \<longrightarrow> unique_strings_destroy hp us = Inr (hp(us := None)))
   \<and> (buckets u = None \<longrightarrow> unique_string_free_buckets u = Inr ([], u))"
proof (intro conjI impI)
  show "unique_strings_destroy hp NULL = Inr hp" by (simp add: unique_strings_destroy_def)
next
  assume ok: "interner_ok hp us"
  from interner_okD[OF ok] obtain u where nn: "us \<noteq> NULL" and dr: "deref hp us = Inr u"
    and tab: "\<forall>bs. buckets u = Some bs \<longrightarrow> length bs = UNIQUE_STRING_BUCKETS" by blast
  have "buckets u = None \<or> (\<exists>bs. buckets u = Some bs \<and> length bs = UNIQUE_STRING_BUCKETS)"
    using tab by (cases "buckets u") auto
  from free_buckets_ok[OF this] obtain freed where
    "unique_string_free_buckets u = Inr (freed, u\<lparr>buckets := None\<rparr>)" by blast
  then show "unique_strings_destroy hp us = Inr (hp(us := None))"
    using nn dr by (simp add: unique_strings_destroy_def Let_def)
next
  assume "buckets u = None"
  then show "unique_string_free_buckets u = Inr ([], u)"
    by (simp add: unique_string_free_buckets_def)
qed

theorem destroy_safe_witness:
  "unique_strings_destroy ex_hp0 16 = Inr (ex_hp0(16 := None))
   \<and> unique_strings_destroy ex_frozen0 16 = Inr (ex_frozen0(16 := None))
   \<and> unique_strings_destroy ex_hp0 NULL = Inr ex_hp0"
proof -
  from interner_okD[OF ex_hp0_ok(1)] obtain u where u: "ex_hp0 16 = Some u" by blast
  have "ex_frozen0 = ex_hp0(16 \<mapsto> frozen_interner ex_alloc u)"
    unfolding ex_frozen0_def by (simp add: freeze_ok(1)[OF ex_hp0_ok(1) u])
  then have okf: "interner_ok ex_frozen0 16"
    using freeze_ok(2)[OF ex_hp0_ok(1) u, where al=ex_alloc] by simp
  show ?thesis
    using destroy_safe[of ex_hp0 16] destroy_safe[of ex_frozen0 16] ex_hp0_ok(1) okf by simp
qed

lemma ex_pair_c:
  "string_hash_pair_prepare (bytes ''c'') = \<lparr>string_hash_pair_t.hash = 3852019730, str = [99]\<rparr>"
  by code_simp

lemma ex_hp_two_ok: "interner_ok ex_hp_two 16"
  by code_simp

subsection \<open>The lookup\<close>

text \<open>
  C9. On a well-formed interner with its table, \<open>_unique_strings_find_node\<close> returns
  what the specification's probe returns on the chain of the selected bucket: found
  with the visited entry whose digest and stored bytes are the query's, and otherwise
  not found with the last visited entry, or with none when the bucket is empty, where
  the walk visits the chain from its head up to the first entry that matches or has a
  strictly smaller digest.
\<close>

theorem find_node_is_probe:
  assumes ok: "interner_ok hp us" and u: "hp us = Some u" and bs: "buckets u = Some bs"
  shows "unique_strings_find_node hp u pair =
           Inr (probe_as_flag (probe hp pair (bs ! get_bucket_index pair)))"
proof -
  from interner_okD[OF ok] u bs have nn: "us \<noteq> NULL"
    and len: "length bs = UNIQUE_STRING_BUCKETS"
    and nodes: "\<forall>chain \<in> set bs. \<forall>n \<in> set chain. handle_ok hp us (buffer_ptr n)"
    by auto
  have "bs ! get_bucket_index pair \<in> set bs"
    using len get_bucket_index_less[of pair] by simp
  then have "\<forall>n \<in> set (bs ! get_bucket_index pair). \<exists>t. get_string hp (buffer_ptr n) = Inr t"
    using nodes handle_ok_get_string nn by blast
  with bs len show ?thesis by (rule find_node_probe_eq)
qed

theorem find_node_is_probe_witness:
  "unique_strings_find_node ex_hp_two ex_u_ac (string_hash_pair_prepare (bytes ''c''))
     = Inr (False, Some 0)
   \<and> probe ex_hp_two (string_hash_pair_prepare (bytes ''c''))
        [\<lparr>hash = 3270753234, buffer_ptr = \<lparr>addr = 0, parent = 16\<rparr>\<rparr>,
         \<lparr>hash = 3852019730, buffer_ptr = \<lparr>addr = 2, parent = 16\<rparr>\<rparr>] = NotFound (Some 0)"
proof -
  have u: "ex_hp_two 16 = Some ex_u_ac" by (simp add: ex_hp_two_def)
  have bs: "buckets ex_u_ac = Some ((replicate 32 [])
                  [18 := [\<lparr>hash = 3270753234, buffer_ptr = \<lparr>addr = 0, parent = 16\<rparr>\<rparr>,
                          \<lparr>hash = 3852019730, buffer_ptr = \<lparr>addr = 2, parent = 16\<rparr>\<rparr>]])"
    by (simp add: ex_u_ac_def)
  have k: "get_bucket_index (string_hash_pair_prepare (bytes ''c'')) = 18"
    by (simp add: ex_pair_c get_bucket_index_def UNIQUE_STRING_BUCKETS_def)
  have p: "probe ex_hp_two (string_hash_pair_prepare (bytes ''c''))
        [\<lparr>hash = 3270753234, buffer_ptr = \<lparr>addr = 0, parent = 16\<rparr>\<rparr>,
         \<lparr>hash = 3852019730, buffer_ptr = \<lparr>addr = 2, parent = 16\<rparr>\<rparr>] = NotFound (Some 0)"
    by (simp add: probe_def visited_def entry_matches_def entry_stops_def ex_pair_c Let_def)
  from find_node_is_probe[OF ex_hp_two_ok u bs, of "string_hash_pair_prepare (bytes ''c'')"]
  show ?thesis by (simp add: k p)
qed

subsection \<open>Ownership\<close>

text \<open>
  C8. \<open>unique_strings_owns\<close> is true of an address exactly when the address is the
  start of the block plus an offset below \<open>used\<close>; and it is false of the address of
  every handle of another interner, whose block does not overlap this one's.
\<close>

theorem owns_iff_in_arena:
  assumes nn: "us \<noteq> NULL" and u: "hp us = Some u"
  shows "unique_strings_owns hp us p = Inr (\<exists>off < used (buffer u). p = data (buffer u) + off)
         \<and> (\<forall>us2 u2 h. hp us2 = Some u2 \<and> us2 \<noteq> NULL
               \<and> buffer_ok (buffer u) \<and> buffer_ok (buffer u2)
               \<and> blocks_disjoint (buffer u) (buffer u2)
               \<and> parent h = us2 \<and> addr h < used (buffer u2)
             \<longrightarrow> unique_strings_get hp h = Inr (data (buffer u2) + addr h)
                 \<and> unique_strings_owns hp us (data (buffer u2) + addr h) = Inr False)"
proof (intro conjI allI impI)
  have "(data (buffer u) \<le> p \<and> p < data (buffer u) + used (buffer u))
          \<longleftrightarrow> (\<exists>off < used (buffer u). p = data (buffer u) + off)"
  proof
    assume a: "data (buffer u) \<le> p \<and> p < data (buffer u) + used (buffer u)"
    then have "p - data (buffer u) < used (buffer u)" and "p = data (buffer u) + (p - data (buffer u))"
      by linarith+
    then show "\<exists>off < used (buffer u). p = data (buffer u) + off" by blast
  next
    assume "\<exists>off < used (buffer u). p = data (buffer u) + off"
    then show "data (buffer u) \<le> p \<and> p < data (buffer u) + used (buffer u)" by auto
  qed
  then show "unique_strings_owns hp us p = Inr (\<exists>off < used (buffer u). p = data (buffer u) + off)"
    using nn u by (simp add: unique_strings_owns_def deref_def)
next
  fix us2 :: ptr and u2 :: unique_strings_t and h :: unique_string_handle_t
  assume a: "hp us2 = Some u2 \<and> us2 \<noteq> NULL
               \<and> buffer_ok (buffer u) \<and> buffer_ok (buffer u2)
               \<and> blocks_disjoint (buffer u) (buffer u2)
               \<and> parent h = us2 \<and> addr h < used (buffer u2)"
  then show "unique_strings_get hp h = Inr (data (buffer u2) + addr h)"
    by (simp add: unique_strings_get_def deref_def)
  from a have "used (buffer u) \<le> capacity (buffer u)" and "used (buffer u2) \<le> capacity (buffer u2)"
    and "data (buffer u) + capacity (buffer u) \<le> data (buffer u2)
         \<or> data (buffer u2) + capacity (buffer u2) \<le> data (buffer u)"
    and "addr h < used (buffer u2)"
    by (simp_all add: buffer_ok_def blocks_disjoint_def)
  then have "\<not> (data (buffer u) \<le> data (buffer u2) + addr h
               \<and> data (buffer u2) + addr h < data (buffer u) + used (buffer u))"
    by linarith
  then show "unique_strings_owns hp us (data (buffer u2) + addr h) = Inr False"
    using nn u by (simp add: unique_strings_owns_def deref_def)
qed

theorem owns_iff_in_arena_witness:
  "unique_strings_owns ex_hp_two 16 8194 = Inr True
   \<and> unique_strings_owns ex_hp_two 16 8196 = Inr False
   \<and> unique_strings_get ex_hp_two \<lparr>addr = 0, parent = 48\<rparr> = Inr 12288
   \<and> unique_strings_owns ex_hp_two 16 12288 = Inr False"
proof -
  have nn: "16 \<noteq> NULL" by (simp add: NULL_def)
  have u: "ex_hp_two 16 = Some ex_u_ac" by (simp add: ex_hp_two_def)
  have in4: "(\<exists>off<4::nat. (8194::nat) = 8192 + off)"
    by (rule exI[of _ 2]) simp
  have out4: "\<not> (\<exists>off<4::nat. (8196::nat) = 8192 + off)" by auto
  have other: "ex_hp_two 48 = Some ex_u_other \<and> 48 \<noteq> NULL
      \<and> buffer_ok (buffer ex_u_ac) \<and> buffer_ok (buffer ex_u_other)
      \<and> blocks_disjoint (buffer ex_u_ac) (buffer ex_u_other)
      \<and> parent \<lparr>addr = 0, parent = 48\<rparr> = 48 \<and> addr \<lparr>addr = 0, parent = 48\<rparr> < used (buffer ex_u_other)"
    by (simp add: ex_hp_two_def NULL_def buffer_ok_def blocks_disjoint_def ex_u_ac_def ex_u_other_def)
  from owns_iff_in_arena[of 16 ex_hp_two ex_u_ac 8194, OF nn u] in4
  have a: "unique_strings_owns ex_hp_two 16 8194 = Inr True" by (simp add: ex_u_ac_def)
  from owns_iff_in_arena[of 16 ex_hp_two ex_u_ac 8196, OF nn u] out4
  have b: "unique_strings_owns ex_hp_two 16 8196 = Inr False" by (simp add: ex_u_ac_def)
  from owns_iff_in_arena[of 16 ex_hp_two ex_u_ac 0, OF nn u] other
  have "unique_strings_get ex_hp_two \<lparr>addr = 0, parent = 48\<rparr> = Inr (data (buffer ex_u_other) + 0)
      \<and> unique_strings_owns ex_hp_two 16 (data (buffer ex_u_other) + 0) = Inr False"
    by (metis unique_string_handle_t.select_convs(1))
  then have c: "unique_strings_get ex_hp_two \<lparr>addr = 0, parent = 48\<rparr> = Inr 12288
      \<and> unique_strings_owns ex_hp_two 16 12288 = Inr False"
    by (simp add: ex_u_other_def)
  show ?thesis using a b c by simp
qed

text \<open>The example interner \<open>ex_u_ac\<close> is the one that two additions reach.\<close>

lemma ex_u_ac_reached:
  "(case run ex_hp0 16 [Add ex_alloc (bytes ''a''), Add ex_alloc (bytes ''c'')] of
      Inl e \<Rightarrow> None | Inr hp \<Rightarrow> hp 16) = Some ex_u_ac"
  by code_simp

subsection \<open>What holds of distinct and of repeated strings\<close>

text \<open>
  X1. Two strings with different bytes never receive the same handle: if both
  additions return, with any additions and freezes that return between them, the
  handles differ.
\<close>

theorem distinct_strings_distinct_handles:
  assumes ok: "interner_ok hp us"
    and a1: "unique_strings_add al1 hp us s1 = Inr (h1, hp1)"
    and r: "run hp1 us ops = Inr hp2"
    and a2: "unique_strings_add al2 hp2 us s2 = Inr (h2, hp3)"
    and ne: "c_str s1 \<noteq> c_str s2"
  shows "h1 \<noteq> h2"
proof
  assume "h1 = h2"
  with two_adds[OF ok a1 r a2] have "c_str s1 = c_str s2" by simp
  with ne show False by simp
qed

text \<open>
  X2. The handles of two additions of the same string, equal or not, both read the
  string after the second addition.
\<close>

theorem repeated_add_same_content:
  assumes ok: "interner_ok hp us"
    and a1: "unique_strings_add al1 hp us s = Inr (h1, hp1)"
    and r: "run hp1 us ops = Inr hp2"
    and a2: "unique_strings_add al2 hp2 us s = Inr (h2, hp3)"
  shows "get_string hp3 h1 = Inr (c_str s) \<and> get_string hp3 h2 = Inr (c_str s)"
  using two_adds[OF ok a1 r a2] by simp

lemma c_str_bytes_Chrome: "c_str (bytes ''Chrome'') = bytes ''Chrome''"
  by (simp add: c_str_def bytes_def)

theorem distinct_strings_distinct_handles_witness:
  "fst (projr ex_added)
     \<noteq> fst (projr (unique_strings_add ex_alloc (snd (projr ex_added)) 16 (bytes ''Chrome'')))"
proof -
  from ex_added_ok obtain h hp1 where a: "ex_added = Inr (h, hp1)" and ok1: "interner_ok hp1 16"
    and bd1: "building hp1 16" by blast
  from add_building[OF ok1 bd1, where al=ex_alloc and s="bytes ''Chrome''"] obtain h2 hp3 where
    a2: "unique_strings_add ex_alloc hp1 16 (bytes ''Chrome'') = Inr (h2, hp3)" by blast
  have r: "run hp1 16 [] = Inr hp1" by simp
  have ne: "c_str (bytes ''Mozilla'') \<noteq> c_str (bytes ''Chrome'')"
    unfolding c_str_bytes_Mozilla c_str_bytes_Chrome by (simp add: bytes_def)
  from distinct_strings_distinct_handles[OF ex_hp0_ok(1) a[unfolded ex_added_def] r a2 ne]
  show ?thesis by (simp add: a a2)
qed

theorem repeated_add_same_content_witness:
  "get_string (snd (projr (unique_strings_add ex_alloc (snd (projr ex_added)) 16 (bytes ''Mozilla''))))
     (fst (projr ex_added)) = Inr (bytes ''Mozilla'')
   \<and> get_string (snd (projr (unique_strings_add ex_alloc (snd (projr ex_added)) 16 (bytes ''Mozilla''))))
     (fst (projr (unique_strings_add ex_alloc (snd (projr ex_added)) 16 (bytes ''Mozilla''))))
       = Inr (bytes ''Mozilla'')"
proof -
  from ex_added_ok obtain h hp1 where a: "ex_added = Inr (h, hp1)" and ok1: "interner_ok hp1 16"
    and bd1: "building hp1 16" by blast
  from add_building[OF ok1 bd1, where al=ex_alloc and s="bytes ''Mozilla''"] obtain h2 hp3 where
    a2: "unique_strings_add ex_alloc hp1 16 (bytes ''Mozilla'') = Inr (h2, hp3)" by blast
  have r: "run hp1 16 [] = Inr hp1" by simp
  from repeated_add_same_content[OF ex_hp0_ok(1) a[unfolded ex_added_def] r a2]
  show ?thesis by (simp add: a a2 c_str_bytes_Mozilla)
qed

subsection \<open>A repeated string that is stored twice\<close>

text \<open>
  C1 at a failing input. On a new interner \<^verbatim>\<open>add("a")\<close>, \<^verbatim>\<open>add("c")\<close>, \<^verbatim>\<open>add("c")\<close>
  return the offsets 0, 2 and 4: both strings fall into bucket 18, the digest of
  \<^verbatim>\<open>"a"\<close> is the smaller one, the node of \<^verbatim>\<open>"c"\<close> is linked behind the node of
  \<^verbatim>\<open>"a"\<close>, and every later search for \<^verbatim>\<open>"c"\<close> stops at the node of \<^verbatim>\<open>"a"\<close>.
\<close>

theorem add_twice_new_handle:
  "handles_of (add_all ex_alloc ex_hp0 16 [bytes ''a'', bytes ''c'', bytes ''c''])
   = Inr [\<lparr>addr = 0, parent = 16\<rparr>, \<lparr>addr = 2, parent = 16\<rparr>, \<lparr>addr = 4, parent = 16\<rparr>]"
  by code_simp

end
